theory Spec2Isabelle
  imports Complex_Main "HOL-Library.AList"
begin

section \<open>Synthetic data from a schema: \<^verbatim>\<open>transformers4rec/torch/utils/schema_utils.py\<close>\<close>

text \<open>
  The module draws random rows for the features of a schema, accumulates them per feature
  name, and pads the list features to a dense matrix. A second function,
  \<^verbatim>\<open>_augment_schema\<close>, selects and retags the columns of a schema.

  Everything the Python does beyond returning a value is explicit here: the two ambient
  random generators are a state that every draw advances, every exception is a value of
  \<open>error\<close>, and the dictionaries are association lists in insertion order.
\<close>

subsection \<open>Errors and results\<close>

datatype error = ValueError | IndexError | RuntimeError | TypeError | KeyError

text \<open>The loop \<^verbatim>\<open>for x in xs: state = body(state, x)\<close>, left at the first exception.\<close>

fun foldM :: "('s \<Rightarrow> 'a \<Rightarrow> error + 's) \<Rightarrow> 's \<Rightarrow> 'a list \<Rightarrow> error + 's" where
  "foldM f s [] = Inr s"
| "foldM f s (x # xs) = (case f s x of Inl e \<Rightarrow> Inl e | Inr s' \<Rightarrow> foldM f s' xs)"

subsection \<open>Tensors\<close>

text \<open>
  A tensor is its shape and its elements in row-major order. The elements are reals:
  the values of \<^verbatim>\<open>torch.randint\<close> are integers, those of \<^verbatim>\<open>torch.rand\<close> are
  multiples of \<open>2\<^sup>-\<^sup>2\<^sup>4\<close>, and the code only moves them (concatenation, stacking,
  placing in a matrix of zeros), so no rounding ever happens.
\<close>

record tensor =
  tshape :: "nat list"
  tdata :: "real list"

text \<open>
  \<^verbatim>\<open>torch.cat((a, b))\<close> along dimension 0: the shapes agree beyond the first dimension;
  otherwise a one-dimensional empty tensor is skipped, and anything else raises.
\<close>

definition torch_cat :: "tensor \<Rightarrow> tensor \<Rightarrow> error + tensor" where
  "torch_cat a b =
     (case (tshape a, tshape b) of
        (m # ra, n # rb) \<Rightarrow>
          if ra = rb then Inr \<lparr>tshape = (m + n) # ra, tdata = tdata a @ tdata b\<rparr>
          else if tshape a = [0] then Inr b
          else if tshape b = [0] then Inr a
          else Inl RuntimeError
      | _ \<Rightarrow> Inl RuntimeError)"

text \<open>\<^verbatim>\<open>torch.stack(ts, dim=0)\<close>: a non-empty list of tensors of one shape.\<close>

definition torch_stack :: "tensor list \<Rightarrow> error + tensor" where
  "torch_stack ts =
     (case ts of
        [] \<Rightarrow> Inl RuntimeError
      | t # _ \<Rightarrow>
          if list_all (\<lambda>u. tshape u = tshape t) ts
          then Inr \<lparr>tshape = length ts # tshape t, tdata = concat (map tdata ts)\<rparr>
          else Inl RuntimeError)"

text \<open>\<^verbatim>\<open>len(t)\<close> of a tensor: its first dimension; a zero-dimensional tensor has none.\<close>

definition tensor_len :: "tensor \<Rightarrow> error + nat" where
  "tensor_len t = (case tshape t of [] \<Rightarrow> Inl TypeError | n # _ \<Rightarrow> Inr n)"

subsection \<open>The random sources\<close>

text \<open>
  The code draws from two process-wide generators: Python's \<^verbatim>\<open>random\<close> (the session
  lengths) and torch's default generator (the values). The state of each is the sequence
  of raw draws it will deliver and the position reached in it. Quantifying over the tapes
  covers every outcome of every draw.
\<close>

record rng =
  py_tape :: "nat \<Rightarrow> nat"
  py_pos :: nat
  torch_tape :: "nat \<Rightarrow> nat"
  torch_pos :: nat

text \<open>\<^verbatim>\<open>random.randint(a, b)\<close>: an integer of the closed range, \<^verbatim>\<open>ValueError\<close> when it is empty.\<close>

definition random_randint :: "int \<Rightarrow> int \<Rightarrow> rng \<Rightarrow> error + (int \<times> rng)" where
  "random_randint a b g =
     (if b < a then Inl ValueError
      else Inr (a + int (py_tape g (py_pos g) mod nat (b - a + 1)),
                g\<lparr>py_pos := py_pos g + 1\<rparr>))"

text \<open>The next \<open>n\<close> raw draws of torch's generator.\<close>

definition torch_draws :: "nat \<Rightarrow> rng \<Rightarrow> nat list \<times> rng" where
  "torch_draws n g =
     (map (\<lambda>k. torch_tape g (torch_pos g + k)) [0..<n], g\<lparr>torch_pos := torch_pos g + n\<rparr>)"

text \<open>
  \<^verbatim>\<open>torch.randint(low, high, size)\<close>: integers of \<open>[low, high)\<close>. A negative dimension
  raises, and so does an empty range, whatever the size.
\<close>

definition torch_randint :: "int \<Rightarrow> int \<Rightarrow> int list \<Rightarrow> rng \<Rightarrow> error + (tensor \<times> rng)" where
  "torch_randint low high sz g =
     (if list_ex (\<lambda>d. d < 0) sz then Inl RuntimeError
      else if high \<le> low then Inl RuntimeError
      else (case torch_draws (prod_list (map nat sz)) g of
              (rs, g') \<Rightarrow>
                Inr (\<lparr>tshape = map nat sz,
                      tdata = map (\<lambda>r. of_int (low + int (r mod nat (high - low)))) rs\<rparr>, g')))"

text \<open>\<^verbatim>\<open>torch.rand(size)\<close>: 24 random bits scaled into \<open>[0, 1)\<close>.\<close>

definition torch_rand :: "int list \<Rightarrow> rng \<Rightarrow> error + (tensor \<times> rng)" where
  "torch_rand sz g =
     (if list_ex (\<lambda>d. d < 0) sz then Inl RuntimeError
      else (case torch_draws (prod_list (map nat sz)) g of
              (rs, g') \<Rightarrow>
                Inr (\<lparr>tshape = map nat sz,
                      tdata = map (\<lambda>r. real (r mod 2 ^ 24) / 2 ^ 24) rs\<rparr>, g')))"

subsection \<open>The schema\<close>

text \<open>
  A feature of the schema, with the three optional fields the generator reads;
  \<^verbatim>\<open>has_field(feature, "x")\<close> is \<open>x \<noteq> None\<close>. The shape is the list of its
  dimensions' sizes.
\<close>

record value_count =
  vc_min :: int
  vc_max :: int

record int_domain =
  id_min :: int
  id_max :: int

record feature =
  fname :: string
  fvalue_count :: "value_count option"
  fint_domain :: "int_domain option"
  fshape :: "int list option"

type_synonym schema = "feature list"

subsection \<open>One row of one feature (lines 43 to 62)\<close>

text \<open>
  \<^verbatim>\<open>feature.shape.dim[0].size > 1 if has_field(feature, "shape") else False\<close>: a shape
  without dimensions raises \<^verbatim>\<open>IndexError\<close>.
\<close>

definition is_embedding :: "feature \<Rightarrow> error + bool" where
  "is_embedding f =
     (case fshape f of
        None \<Rightarrow> Inr False
      | Some [] \<Rightarrow> Inl IndexError
      | Some (d # _) \<Rightarrow> Inr (1 < d))"

text \<open>\<^verbatim>\<open>[d.size for d in feature.shape.dim] if has_field(feature, "shape") else (1,)\<close>\<close>

definition shape_of :: "feature \<Rightarrow> int list" where
  "shape_of f = (case fshape f of None \<Rightarrow> [1] | Some ds \<Rightarrow> ds)"

text \<open>
  \<^verbatim>\<open>session_length or feature.value_count.max\<close>: Python's \<^verbatim>\<open>or\<close> takes the right
  operand when the left one is \<^verbatim>\<open>None\<close> or zero.
\<close>

definition list_length :: "int option \<Rightarrow> value_count \<Rightarrow> int" where
  "list_length session_length vc =
     (case session_length of
        None \<Rightarrow> vc_max vc
      | Some l \<Rightarrow> if l \<noteq> 0 then l else vc_max vc)"

definition gen_row :: "feature \<Rightarrow> int option \<Rightarrow> rng \<Rightarrow> error + (tensor \<times> rng)" where
  "gen_row f session_length g =
     (case is_embedding f of
        Inl e \<Rightarrow> Inl e
      | Inr _ \<Rightarrow>
         (case fint_domain f of
            Some idom \<Rightarrow>
              (case fvalue_count f of
                 Some vc \<Rightarrow> torch_randint 1 (id_max idom) [list_length session_length vc] g
               | None \<Rightarrow> torch_randint 1 (id_max idom) (shape_of f) g)
          | None \<Rightarrow>
              (case fvalue_count f of
                 Some vc \<Rightarrow> torch_rand [list_length session_length vc] g
               | None \<Rightarrow> torch_rand (shape_of f) g)))"

subsection \<open>Accumulating the rows of a feature (lines 64 to 84)\<close>

text \<open>
  What \<^verbatim>\<open>data\<close> holds under a name: a tensor, the pair of the values and the row
  lengths of a list feature, or the list of rows of an embedding that is not stacked yet.
\<close>

datatype column = Dense tensor | Ragged tensor "nat list" | Pending "tensor list"

text \<open>
  The new value of \<^verbatim>\<open>data[feature.name]\<close> from the old one (\<open>None\<close> when the name is
  not in \<^verbatim>\<open>data\<close>) and the row just drawn, in row \<open>i\<close> of \<open>num_rows\<close>. Two features
  of one name and of different kinds meet in the branches marked \<^verbatim>\<open>TypeError\<close>: there
  the Python indexes, concatenates or stacks a value of the wrong kind, and raises then
  or in a later row; the model fails at once and does not tell the exceptions apart.
\<close>

definition accumulate ::
  "feature \<Rightarrow> nat \<Rightarrow> nat \<Rightarrow> column option \<Rightarrow> tensor \<Rightarrow> error + column" where
  "accumulate f i num_rows old row =
     (case is_embedding f of
        Inl e \<Rightarrow> Inl e
      | Inr emb \<Rightarrow>
         (case old of
            Some c \<Rightarrow>
              if fvalue_count f \<noteq> None then
                (case c of
                   Ragged vals lens \<Rightarrow>
                     (case tensor_len row of
                        Inl e \<Rightarrow> Inl e
                      | Inr n \<Rightarrow>
                         (case torch_cat vals row of
                            Inl e \<Rightarrow> Inl e
                          | Inr vals' \<Rightarrow> Inr (Ragged vals' (lens @ [n]))))
                 | _ \<Rightarrow> Inl TypeError)
              else if emb then
                (case (case c of
                         Pending ts \<Rightarrow> Inr (ts @ [row])
                       | Dense t \<Rightarrow> Inr [t, row]
                       | Ragged _ _ \<Rightarrow> Inl TypeError) of
                   Inl e \<Rightarrow> Inl e
                 | Inr ts \<Rightarrow>
                     if int i = int num_rows - 1
                     then (case torch_stack ts of Inl e \<Rightarrow> Inl e | Inr t \<Rightarrow> Inr (Dense t))
                     else Inr (Pending ts))
              else
                (case c of
                   Dense t \<Rightarrow>
                     (case torch_cat t row of Inl e \<Rightarrow> Inl e | Inr t' \<Rightarrow> Inr (Dense t'))
                 | _ \<Rightarrow> Inl TypeError)
          | None \<Rightarrow>
              if fvalue_count f \<noteq> None then
                (case tensor_len row of Inl e \<Rightarrow> Inl e | Inr n \<Rightarrow> Inr (Ragged row [n]))
              else Inr (Dense row)))"

type_synonym data = "(string \<times> column) list"

text \<open>The body of the inner loop: draw the row, then store the accumulated column.\<close>

definition col_step ::
  "nat \<Rightarrow> nat \<Rightarrow> int option \<Rightarrow> feature \<Rightarrow> column option \<Rightarrow> rng \<Rightarrow> error + (column \<times> rng)" where
  "col_step i num_rows session_length f old g =
     (case gen_row f session_length g of
        Inl e \<Rightarrow> Inl e
      | Inr (row, g') \<Rightarrow>
         (case accumulate f i num_rows old row of
            Inl e \<Rightarrow> Inl e
          | Inr c \<Rightarrow> Inr (c, g')))"

definition feature_step ::
  "nat \<Rightarrow> nat \<Rightarrow> int option \<Rightarrow> data \<times> rng \<Rightarrow> feature \<Rightarrow> error + (data \<times> rng)" where
  "feature_step i num_rows session_length s f =
     (case col_step i num_rows session_length f (map_of (fst s) (fname f)) (snd s) of
        Inl e \<Rightarrow> Inl e
      | Inr (c, g') \<Rightarrow> Inr (AList.update (fname f) c (fst s), g'))"

text \<open>
  The session length of a row (lines 38 to 40): drawn when \<^verbatim>\<open>max_session_length\<close> is
  neither \<^verbatim>\<open>None\<close> nor zero.
\<close>

definition draw_session_length :: "int option \<Rightarrow> int \<Rightarrow> rng \<Rightarrow> error + (int option \<times> rng)" where
  "draw_session_length max_session_length min_session_length g =
     (case max_session_length of
        None \<Rightarrow> Inr (None, g)
      | Some m \<Rightarrow>
          if m = 0 then Inr (None, g)
          else (case random_randint min_session_length m g of
                  Inl e \<Rightarrow> Inl e
                | Inr (l, g') \<Rightarrow> Inr (Some l, g')))"

definition row_step ::
  "schema \<Rightarrow> nat \<Rightarrow> int option \<Rightarrow> int \<Rightarrow> data \<times> rng \<Rightarrow> nat \<Rightarrow> error + (data \<times> rng)" where
  "row_step sch num_rows max_session_length min_session_length s i =
     (case draw_session_length max_session_length min_session_length (snd s) of
        Inl e \<Rightarrow> Inl e
      | Inr (session_length, g') \<Rightarrow>
          foldM (feature_step i num_rows session_length) (fst s, g') sch)"

text \<open>The first loop nest (lines 35 to 84): \<^verbatim>\<open>data\<close> after all rows.\<close>

definition generate :: "rng \<Rightarrow> schema \<Rightarrow> nat \<Rightarrow> int option \<Rightarrow> int \<Rightarrow> error + (data \<times> rng)" where
  "generate g sch num_rows max_session_length min_session_length =
     foldM (row_step sch num_rows max_session_length min_session_length) ([], g) [0..<num_rows]"

subsection \<open>From values and offsets to a padded matrix (lines 103 to 129)\<close>

text \<open>
  The index tensors of this part are one-dimensional integer tensors: lists of integers.
  \<^verbatim>\<open>_pull_values_offsets\<close> takes a pair of values and offsets, or values alone.
\<close>

datatype values_offset = ValuesOffsets tensor "int list" | ValuesOnly tensor

definition pull_values_offsets :: "values_offset \<Rightarrow> real list \<times> int list \<times> int list \<times> nat" where
  "pull_values_offsets values_offset =
     (case (case values_offset of
              ValuesOffsets v offs \<Rightarrow> (tdata v, offs)
            | ValuesOnly v \<Rightarrow> (tdata v, map int [0..<length (tdata v)])) of
        (vals, offsets) \<Rightarrow>
          (let num_rows = length offsets;
               offsets' = offsets @ [int (length vals)];
               diff_offsets = map2 (\<lambda>a b. a - b) (tl offsets') (butlast offsets')
           in (vals, offsets', diff_offsets, num_rows)))"

text \<open>
  \<^verbatim>\<open>torch.repeat_interleave(xs, repeats)\<close>: the repeats are not negative, and there is
  one for each element, or a single one for all.
\<close>

definition repeat_interleave :: "'a list \<Rightarrow> int list \<Rightarrow> error + 'a list" where
  "repeat_interleave xs repeats =
     (if list_ex (\<lambda>r. r < 0) repeats then Inl RuntimeError
      else if length repeats = length xs
        then Inr (concat (map2 (\<lambda>x r. replicate (nat r) x) xs repeats))
      else if length repeats = 1
        then Inr (concat (map (replicate (nat (hd repeats))) xs))
      else Inl RuntimeError)"

definition get_indices :: "int list \<Rightarrow> int list \<Rightarrow> error + (int \<times> int) list" where
  "get_indices offsets diff_offsets =
     (if offsets = [] then Inl RuntimeError
      else
        (let row_ids = map int [0..<length offsets - 1] in
         case repeat_interleave row_ids diff_offsets of
           Inl e \<Rightarrow> Inl e
         | Inr row_ids_repeated \<Rightarrow>
            (case repeat_interleave (butlast offsets) diff_offsets of
               Inl e \<Rightarrow> Inl e
             | Inr row_offset_repeated \<Rightarrow>
                (let col_ids = map2 (\<lambda>a b. a - b)
                                 (map int [0..<length row_offset_repeated]) row_offset_repeated
                 in Inr (zip row_ids_repeated col_ids)))))"

text \<open>A coordinate that the matrix of \<open>num_rows\<close> by \<open>seq_limit\<close> has.\<close>

definition in_bounds :: "nat \<Rightarrow> int \<Rightarrow> int \<times> int \<Rightarrow> bool" where
  "in_bounds num_rows seq_limit ix =
     (0 \<le> fst ix \<and> fst ix < int num_rows \<and> 0 \<le> snd ix \<and> snd ix < seq_limit)"

text \<open>
  \<^verbatim>\<open>torch.sparse_coo_tensor(indices.T, values, torch.Size([num_rows, seq_limit])).to_dense()\<close>:
  each cell is the sum of the values placed at it, zero when there is none. The
  constructor raises on a negative size, on values and indices of different lengths, and
  on a coordinate outside the size.
\<close>

definition get_sparse_tensor ::
  "real list \<Rightarrow> (int \<times> int) list \<Rightarrow> nat \<Rightarrow> int \<Rightarrow> error + tensor" where
  "get_sparse_tensor vals indices num_rows seq_limit =
     (if seq_limit < 0 then Inl RuntimeError
      else if length indices \<noteq> length vals then Inl RuntimeError
      else if list_ex (\<lambda>ix. \<not> in_bounds num_rows seq_limit ix) indices then Inl RuntimeError
      else Inr \<lparr>tshape = [num_rows, nat seq_limit],
                tdata = concat (map (\<lambda>r. map (\<lambda>c.
                          sum_list (map snd (filter (\<lambda>p. fst p = (int r, int c)) (zip indices vals))))
                          [0..<nat seq_limit]) [0..<num_rows])\<rparr>)"

subsection \<open>The second loop (lines 86 to 100)\<close>

text \<open>
  \<^verbatim>\<open>offsets = [0]\<close>, then \<^verbatim>\<open>offsets.append(offsets[-1] + length)\<close> for every length
  but the last.
\<close>

definition offsets_of :: "nat list \<Rightarrow> int list" where
  "offsets_of lens = foldl (\<lambda>offsets l. offsets @ [last offsets + int l]) [0] (butlast lens)"

text \<open>\<^verbatim>\<open>max_session_length or val[1][0]\<close>\<close>

definition seq_limit_of :: "int option \<Rightarrow> nat list \<Rightarrow> error + int" where
  "seq_limit_of max_session_length lens =
     (let first = (case lens of [] \<Rightarrow> Inl IndexError | l # _ \<Rightarrow> Inr (int l)) in
      case max_session_length of
        None \<Rightarrow> first
      | Some m \<Rightarrow> if m \<noteq> 0 then Inr m else first)"

text \<open>
  The coordinates and the width that the loop hands to \<^verbatim>\<open>_get_sparse_tensor\<close> for a
  pair of values and lengths.
\<close>

definition sparse_args ::
  "int option \<Rightarrow> tensor \<Rightarrow> nat list \<Rightarrow> error + (real list \<times> (int \<times> int) list \<times> nat \<times> int)" where
  "sparse_args max_session_length v lens =
     (case pull_values_offsets (ValuesOffsets v (offsets_of lens)) of
        (vals, offsets, diff_offsets, num_rows) \<Rightarrow>
          (case get_indices offsets diff_offsets of
             Inl e \<Rightarrow> Inl e
           | Inr indices \<Rightarrow>
              (case seq_limit_of max_session_length lens of
                 Inl e \<Rightarrow> Inl e
               | Inr seq_limit \<Rightarrow> Inr (vals, indices, num_rows, seq_limit))))"

definition densify :: "int option \<Rightarrow> column \<Rightarrow> error + column" where
  "densify max_session_length val =
     (case val of
        Ragged v lens \<Rightarrow>
          (case sparse_args max_session_length v lens of
             Inl e \<Rightarrow> Inl e
           | Inr (vals, indices, num_rows, seq_limit) \<Rightarrow>
              (case get_sparse_tensor vals indices num_rows seq_limit of
                 Inl e \<Rightarrow> Inl e
               | Inr t \<Rightarrow> Inr (Dense t)))
      | _ \<Rightarrow> Inr val)"

definition output_step :: "int option \<Rightarrow> data \<Rightarrow> string \<times> column \<Rightarrow> error + data" where
  "output_step max_session_length outputs kv =
     (case densify max_session_length (snd kv) of
        Inl e \<Rightarrow> Inl e
      | Inr c \<Rightarrow> Inr (AList.update (fst kv) c outputs))"

text \<open>
  The whole function. The device only places the tensors and is left out. The result is
  the output mapping and the state in which the generators are left.
\<close>

definition random_data_from_schema ::
  "rng \<Rightarrow> schema \<Rightarrow> nat \<Rightarrow> int option \<Rightarrow> int \<Rightarrow> error + (data \<times> rng)" where
  "random_data_from_schema g sch num_rows max_session_length min_session_length =
     (case generate g sch num_rows max_session_length min_session_length of
        Inl e \<Rightarrow> Inl e
      | Inr (dat, g') \<Rightarrow>
         (case foldM (output_step max_session_length) [] dat of
            Inl e \<Rightarrow> Inl e
          | Inr outputs \<Rightarrow> Inr (outputs, g')))"

subsection \<open>Reading the results\<close>

text \<open>A schema names each of its features once.\<close>

definition wf_schema :: "schema \<Rightarrow> bool" where
  "wf_schema sch = distinct (map fname sch)"

text \<open>The session lengths that a row can get from \<open>draw_session_length\<close>.\<close>

definition sl_ok :: "int option \<Rightarrow> int \<Rightarrow> int option \<Rightarrow> bool" where
  "sl_ok mx mn sl =
     (case sl of
        None \<Rightarrow> mx = None \<or> mx = Some 0
      | Some l \<Rightarrow> (\<exists>m. mx = Some m \<and> m \<noteq> 0 \<and> mn \<le> l \<and> l \<le> m))"

text \<open>All the values that a column holds.\<close>

fun column_values :: "column \<Rightarrow> real list" where
  "column_values (Dense t) = tdata t"
| "column_values (Ragged v lens) = tdata v"
| "column_values (Pending ts) = concat (map tdata ts)"

text \<open>
  The values of row \<open>r\<close> in the flat values of a list feature, and the cell at row \<open>r\<close>
  and column \<open>c\<close> of a matrix.
\<close>

definition row_values :: "tensor \<Rightarrow> nat list \<Rightarrow> nat \<Rightarrow> real list" where
  "row_values v lens r = take (lens ! r) (drop (sum_list (take r lens)) (tdata v))"

definition cell :: "tensor \<Rightarrow> nat \<Rightarrow> nat \<Rightarrow> real" where
  "cell t r c = tdata t ! (r * (tshape t ! 1) + c)"

text \<open>
  The point of a run at which row \<open>r\<close> draws for the feature \<open>f\<close>: the rows before
  \<open>r\<close> are done, the session length of row \<open>r\<close> is drawn and the features that the
  schema has before \<open>f\<close> have had their turn in row \<open>r\<close>. The result is the session
  length of the row and the state of the random sources there.
\<close>

definition state_before ::
  "rng \<Rightarrow> schema \<Rightarrow> nat \<Rightarrow> int option \<Rightarrow> int \<Rightarrow> nat \<Rightarrow> feature \<Rightarrow> error + (int option \<times> rng)" where
  "state_before g sch num_rows max_session_length min_session_length r f =
     (case foldM (row_step sch num_rows max_session_length min_session_length) ([], g) [0..<r] of
        Inl e \<Rightarrow> Inl e
      | Inr (d, g1) \<Rightarrow>
         (case draw_session_length max_session_length min_session_length g1 of
            Inl e \<Rightarrow> Inl e
          | Inr (session_length, g2) \<Rightarrow>
             (case foldM (feature_step r num_rows session_length) (d, g2)
                     (takeWhile (\<lambda>f'. fname f' \<noteq> fname f) sch) of
                Inl e \<Rightarrow> Inl e
              | Inr (d', g3) \<Rightarrow> Inr (session_length, g3))))"

text \<open>The tensor that row \<open>r\<close> draws for the feature \<open>f\<close> (lines 43 to 62 in that row).\<close>

definition drawn_row ::
  "rng \<Rightarrow> schema \<Rightarrow> nat \<Rightarrow> int option \<Rightarrow> int \<Rightarrow> nat \<Rightarrow> feature \<Rightarrow> error + tensor" where
  "drawn_row g sch num_rows max_session_length min_session_length r f =
     (case state_before g sch num_rows max_session_length min_session_length r f of
        Inl e \<Rightarrow> Inl e
      | Inr (session_length, g') \<Rightarrow>
         (case gen_row f session_length g' of
            Inl e \<Rightarrow> Inl e
          | Inr (row, _) \<Rightarrow> Inr row))"

text \<open>
  Two states of the random sources that deliver the same draws from here on: what a
  generator seeded twice with one seed gives.
\<close>

definition same_draws :: "rng \<Rightarrow> rng \<Rightarrow> bool" where
  "same_draws g h =
     ((\<forall>k. py_tape g (py_pos g + k) = py_tape h (py_pos h + k)) \<and>
      (\<forall>k. torch_tape g (torch_pos g + k) = torch_tape h (torch_pos h + k)))"

section \<open>Schema augmentation\<close>

text \<open>
  \<^verbatim>\<open>_augment_schema\<close> works on a schema of the \<^verbatim>\<open>merlin.schema\<close> library: a dictionary
  from column names to column schemas, read and written by name. The types are those of
  the library, with the fields that the function reads and sets: a column schema has a
  name, a set of tags, a dtype, the two list flags and a dictionary of properties. The
  properties are values, not shared between columns.
\<close>

datatype tag = TARGET | CATEGORICAL | CONTINUOUS | OtherTag string

datatype pval = PInt int | PStr string | PDict "(string \<times> pval) list"

record column_schema =
  cs_name :: string
  cs_tags :: "tag set"
  cs_dtype :: string
  cs_is_list :: bool
  cs_is_ragged :: bool
  cs_properties :: "(string \<times> pval) list"

type_synonym mschema = "(string \<times> column_schema) list"

text \<open>
  Modelled from the spec: one name of \<^verbatim>\<open>Schema.select_by_name\<close> of the schema library,
  which is not part of this repository: the column of that name joins the selection, and
  a name that the schema does not have is a lookup error.
\<close>

definition select_step :: "mschema \<Rightarrow> mschema \<Rightarrow> string \<Rightarrow> error + mschema" where
  "select_step sch acc n =
     (case map_of sch n of None \<Rightarrow> Inl KeyError | Some cs \<Rightarrow> Inr (AList.update n cs acc))"

text \<open>
  Modelled from the spec: \<^verbatim>\<open>Schema.select_by_name\<close> of the schema library, which is
  not part of this repository. It returns the schema restricted to the names, in their
  order, and fails with a lookup error on a name that the schema does not have.
\<close>

definition select_by_name :: "mschema \<Rightarrow> string list \<Rightarrow> error + mschema" where
  "select_by_name sch names = foldM (select_step sch) [] names"

text \<open>
  Modelled from the spec: \<^verbatim>\<open>ColumnSchema.with_tags\<close> of the schema library, which is
  not part of this repository. The spec leaves open whether the tag given joins the tags
  that the column has or replaces them, and directs to take it as replacing. Both
  readings are modelled; which one the library has is a parameter of the model.
\<close>

datatype tagging = Additive | Replacing

definition with_tags :: "tagging \<Rightarrow> column_schema \<Rightarrow> tag \<Rightarrow> column_schema" where
  "with_tags mode cs t =
     cs\<lparr>cs_tags := (case mode of Additive \<Rightarrow> insert t (cs_tags cs) | Replacing \<Rightarrow> {t})\<rparr>"

text \<open>\<^verbatim>\<open>schema[label] = schema[label].with_tags(t)\<close>; reading a missing name raises.\<close>

definition retag :: "tagging \<Rightarrow> tag \<Rightarrow> mschema \<Rightarrow> string \<Rightarrow> error + mschema" where
  "retag mode t sch label =
     (case map_of sch label of
        None \<Rightarrow> Inl KeyError
      | Some cs \<Rightarrow> Inr (AList.update label (with_tags mode cs t) sch))"

text \<open>
  The body of the loop over \<^verbatim>\<open>sparse_names\<close> (lines 155 to 166). The test
  \<^verbatim>\<open>sparse_max and col in sparse_max\<close> fails for \<^verbatim>\<open>None\<close> and for the empty dictionary.
\<close>

definition sparse_step ::
  "(string \<times> int) list option \<Rightarrow> bool \<Rightarrow> mschema \<Rightarrow> string \<Rightarrow> error + mschema" where
  "sparse_step sparse_max sparse_as_dense sch col =
     (case map_of sch col of
        None \<Rightarrow> Inl KeyError
      | Some cs \<Rightarrow>
          (let properties =
                 (case sparse_max of
                    None \<Rightarrow> cs_properties cs
                  | Some sm \<Rightarrow>
                     (case map_of sm col of
                        None \<Rightarrow> cs_properties cs
                      | Some m \<Rightarrow>
                          AList.update ''value_count'' (PDict [(''max'', PInt m)])
                            (cs_properties cs)))
           in Inr (AList.update col
                     \<lparr>cs_name = cs_name cs, cs_tags = cs_tags cs, cs_dtype = cs_dtype cs,
                      cs_is_list = True, cs_is_ragged = (\<not> sparse_as_dense),
                      cs_properties = properties\<rparr> sch)))"

text \<open>
  The function. The three lists are concatenated first, which raises \<^verbatim>\<open>TypeError\<close>
  when one of them is left at its default \<^verbatim>\<open>None\<close>; so \<^verbatim>\<open>labels\<close> is a list when
  line 145 is reached.
\<close>

definition augment_schema ::
  "tagging \<Rightarrow> mschema \<Rightarrow> string list option \<Rightarrow> string list option \<Rightarrow> string list option \<Rightarrow>
   string list option \<Rightarrow> (string \<times> int) list option \<Rightarrow> bool \<Rightarrow> error + mschema" where
  "augment_schema mode sch cats conts labels sparse_names sparse_max sparse_as_dense =
     (case (conts, cats, labels) of
        (Some co, Some ca, Some la) \<Rightarrow>
          (case select_by_name sch (co @ ca @ la) of
             Inl e \<Rightarrow> Inl e
           | Inr s0 \<Rightarrow>
              (case foldM (retag mode TARGET) s0 la of
                 Inl e \<Rightarrow> Inl e
               | Inr s1 \<Rightarrow>
                  (case foldM (retag mode CATEGORICAL) s1 ca of
                     Inl e \<Rightarrow> Inl e
                   | Inr s2 \<Rightarrow>
                      (case foldM (retag mode CONTINUOUS) s2 co of
                         Inl e \<Rightarrow> Inl e
                       | Inr s3 \<Rightarrow>
                           foldM (sparse_step sparse_max sparse_as_dense) s3
                             (case sparse_names of None \<Rightarrow> [] | Some ns \<Rightarrow> ns)))))
      | _ \<Rightarrow> Inl TypeError)"

text \<open>The value-count maximum recorded in the properties of a column.\<close>

definition value_count_max :: "column_schema \<Rightarrow> int option" where
  "value_count_max cs =
     (case map_of (cs_properties cs) ''value_count'' of
        Some (PDict d) \<Rightarrow> (case map_of d ''max'' of Some (PInt m) \<Rightarrow> Some m | _ \<Rightarrow> None)
      | _ \<Rightarrow> None)"

subsection \<open>Notions for the proofs\<close>

text \<open>
  The offsets at which the rows of a list feature start in its flat values, from the
  offset \<open>b\<close>, and the coordinates of its values, from the row \<open>r\<close>: what the second
  loop computes, written by recursion on the row lengths.
\<close>

fun starts :: "nat \<Rightarrow> nat list \<Rightarrow> int list" where
  "starts b [] = []"
| "starts b (l # ls) = int b # starts (b + l) ls"

fun ragged_indices :: "nat \<Rightarrow> nat list \<Rightarrow> (int \<times> int) list" where
  "ragged_indices r [] = []"
| "ragged_indices r (l # ls) = map (\<lambda>c. (int r, int c)) [0..<l] @ ragged_indices (Suc r) ls"

text \<open>
  The column of a list feature after \<open>i\<close> rows: the flat values and the row lengths,
  each length with the property \<open>Q\<close>.
\<close>

definition ragged_inv :: "(nat \<Rightarrow> bool) \<Rightarrow> nat \<Rightarrow> column option \<Rightarrow> bool" where
  "ragged_inv Q i co =
     (case co of
        None \<Rightarrow> i = 0
      | Some (Ragged v lens) \<Rightarrow>
          0 < i \<and> length lens = i \<and> tshape v = [sum_list lens]
          \<and> length (tdata v) = sum_list lens \<and> list_all Q lens
      | Some _ \<Rightarrow> False)"

text \<open>The width that the second loop pads a list feature to.\<close>

definition padded_width :: "int option \<Rightarrow> value_count \<Rightarrow> int" where
  "padded_width mx vc =
     (case mx of None \<Rightarrow> vc_max vc | Some m \<Rightarrow> if m \<noteq> 0 then m else vc_max vc)"

text \<open>
  A scalar continuous feature: no value count, no integer domain, and one value per row
  (no shape, or the shape \<open>(1,)\<close>).
\<close>

definition scalar_continuous :: "feature \<Rightarrow> bool" where
  "scalar_continuous f \<longleftrightarrow>
     fvalue_count f = None \<and> fint_domain f = None \<and> (fshape f = None \<or> fshape f = Some [1])"

text \<open>The column of a scalar continuous feature after \<open>i\<close> rows.\<close>

definition unit_inv :: "nat \<Rightarrow> column option \<Rightarrow> bool" where
  "unit_inv i co =
     (case co of
        None \<Rightarrow> i = 0
      | Some (Dense t) \<Rightarrow>
          0 < i \<and> tshape t = [i] \<and> length (tdata t) = i
          \<and> (\<forall>v\<in>set (tdata t). 0 \<le> v \<and> v < 1)
      | Some _ \<Rightarrow> False)"

text \<open>
  The column of an embedding feature of row shape \<open>S\<close> after \<open>i\<close> of \<open>n\<close> rows: the
  first row as it is, then the list of the rows, stacked with the last row.
\<close>

definition emb_inv :: "nat list \<Rightarrow> nat \<Rightarrow> nat \<Rightarrow> column option \<Rightarrow> bool" where
  "emb_inv S n i co =
     (case co of
        None \<Rightarrow> i = 0
      | Some (Dense t) \<Rightarrow> (i = 1 \<and> tshape t = S) \<or> (1 < i \<and> i = n \<and> tshape t = n # S)
      | Some (Pending ts) \<Rightarrow> 1 < i \<and> i < n \<and> length ts = i \<and> list_all (\<lambda>u. tshape u = S) ts
      | Some (Ragged _ _) \<Rightarrow> False)"

text \<open>The column schema that the loop over \<^verbatim>\<open>sparse_names\<close> rebuilds from \<open>cs\<close>.\<close>

definition sparse_column ::
  "(string \<times> int) list option \<Rightarrow> bool \<Rightarrow> string \<Rightarrow> column_schema \<Rightarrow> column_schema" where
  "sparse_column sparse_max sparse_as_dense col cs =
     \<lparr>cs_name = cs_name cs, cs_tags = cs_tags cs, cs_dtype = cs_dtype cs,
      cs_is_list = True, cs_is_ragged = (\<not> sparse_as_dense),
      cs_properties =
        (case sparse_max of
           None \<Rightarrow> cs_properties cs
         | Some sm \<Rightarrow>
            (case map_of sm col of
               None \<Rightarrow> cs_properties cs
             | Some m \<Rightarrow>
                 AList.update ''value_count'' (PDict [(''max'', PInt m)]) (cs_properties cs)))\<rparr>"

text \<open>A column after a loop that changes the columns named in \<open>ks\<close> by \<open>F\<close>.\<close>

definition changed :: "(string \<Rightarrow> column_schema \<Rightarrow> column_schema) \<Rightarrow> string list \<Rightarrow>
    string \<Rightarrow> column_schema \<Rightarrow> column_schema" where
  "changed F ks k cs = (if k \<in> set ks then F k cs else cs)"

text \<open>
  Two runs end alike: with the same error, or with the same value and random sources
  that deliver the same draws.
\<close>

definition alike :: "error + ('a \<times> rng) \<Rightarrow> error + ('a \<times> rng) \<Rightarrow> bool" where
  "alike x y =
     (case x of
        Inl e \<Rightarrow> y = Inl e
      | Inr (a, g) \<Rightarrow> (\<exists>h. y = Inr (a, h) \<and> same_draws g h))"

subsection \<open>Examples\<close>

text \<open>
  A state of the random sources, and the same draws on shifted tapes. The raw draws of
  Python are 0, 1, 2, ... and those of torch are 3, 10, 17, ...
\<close>

definition example_rng :: rng where
  "example_rng = \<lparr>py_tape = (\<lambda>k. k), py_pos = 0, torch_tape = (\<lambda>k. 7 * k + 3), torch_pos = 0\<rparr>"

definition shifted_rng :: rng where
  "shifted_rng = \<lparr>py_tape = (\<lambda>k. k - 1), py_pos = 1,
                   torch_tape = (\<lambda>k. 7 * (k - 2) + 3), torch_pos = 2\<rparr>"

text \<open>
  A list feature of integers below 10 with at most 3 values, an embedding of shape
  \<open>(2,)\<close>, and two scalar continuous features.
\<close>

definition item_list :: feature where
  "item_list = \<lparr>fname = ''item_id-list'', fvalue_count = Some \<lparr>vc_min = 0, vc_max = 3\<rparr>,
      fint_domain = Some \<lparr>id_min = 0, id_max = 10\<rparr>, fshape = None\<rparr>"

definition embedding :: feature where
  "embedding = \<lparr>fname = ''emb'', fvalue_count = None, fint_domain = None, fshape = Some [2]\<rparr>"

definition price :: feature where
  "price = \<lparr>fname = ''price'', fvalue_count = None, fint_domain = None, fshape = None\<rparr>"

definition age :: feature where
  "age = \<lparr>fname = ''age'', fvalue_count = None, fint_domain = None, fshape = Some [1]\<rparr>"

text \<open>A schema of four plain columns for \<^verbatim>\<open>_augment_schema\<close>.\<close>

definition plain_column :: "string \<Rightarrow> column_schema" where
  "plain_column n = \<lparr>cs_name = n, cs_tags = {}, cs_dtype = ''int64'', cs_is_list = False,
                     cs_is_ragged = False, cs_properties = []\<rparr>"

definition example_columns :: mschema where
  "example_columns = [(''a'', plain_column ''a''), (''b'', plain_column ''b''),
                      (''c'', plain_column ''c''), (''d'', plain_column ''d'')]"

section \<open>Properties of the loops\<close>

subsection \<open>The column of one feature through the loops\<close>

text \<open>
  In a schema that names each feature once, the column under the name of a feature
  changes only in the steps of that feature. So a property of the column that each step
  carries from \<open>i\<close> rows to \<open>i + 1\<close> holds after the loops.
\<close>

lemma foldM_append:
  "foldM f s (xs @ ys) = (case foldM f s xs of Inl e \<Rightarrow> Inl e | Inr s' \<Rightarrow> foldM f s' ys)"
  by (induction xs arbitrary: s) (auto split: sum.splits)

lemma foldM_snoc:
  "foldM f s (xs @ [x]) = (case foldM f s xs of Inl e \<Rightarrow> Inl e | Inr s' \<Rightarrow> f s' x)"
  by (simp add: foldM_append split: sum.splits)

lemma feature_step_Inr:
  assumes "feature_step i n sl (d, g) f = Inr (d', g')"
  obtains c where "col_step i n sl f (map_of d (fname f)) g = Inr (c, g')"
    and "d' = AList.update (fname f) c d"
  using assms by (auto simp: feature_step_def split: sum.splits prod.splits)

lemma features_loop_other:
  assumes "foldM (feature_step i n sl) (d, g) fs = Inr (d', g')"
    and "k \<notin> fname ` set fs"
  shows "map_of d' k = map_of d k"
  using assms
proof (induction fs arbitrary: d g)
  case Nil
  then show ?case by simp
next
  case (Cons f fs)
  from Cons.prems(1) obtain d1 g1 where
    st: "feature_step i n sl (d, g) f = Inr (d1, g1)"
    and rest: "foldM (feature_step i n sl) (d1, g1) fs = Inr (d', g')"
    by (auto split: sum.splits)
  from st obtain c where "d1 = AList.update (fname f) c d"
    by (rule feature_step_Inr)
  with Cons.prems(2) have "map_of d1 k = map_of d k"
    by (auto simp: update_conv')
  moreover from Cons.IH[OF rest] Cons.prems(2) have "map_of d' k = map_of d1 k"
    by simp
  ultimately show ?case by simp
qed

lemma features_loop_col:
  assumes "foldM (feature_step i n sl) (d, g) fs = Inr (d', g')"
    and "f \<in> set fs" and "distinct (map fname fs)"
  shows "\<exists>g1 g2 c. col_step i n sl f (map_of d (fname f)) g1 = Inr (c, g2)
           \<and> map_of d' (fname f) = Some c"
  using assms
proof (induction fs arbitrary: d g)
  case Nil
  then show ?case by simp
next
  case (Cons a fs)
  from Cons.prems(1) obtain d1 g1 where
    st: "feature_step i n sl (d, g) a = Inr (d1, g1)"
    and rest: "foldM (feature_step i n sl) (d1, g1) fs = Inr (d', g')"
    by (auto split: sum.splits)
  from st obtain c where c: "col_step i n sl a (map_of d (fname a)) g = Inr (c, g1)"
    and d1: "d1 = AList.update (fname a) c d"
    by (rule feature_step_Inr)
  show ?case
  proof (cases "f = a")
    case True
    from Cons.prems(3) have "fname a \<notin> fname ` set fs" by simp
    from features_loop_other[OF rest this] d1
    have "map_of d' (fname a) = Some c" by (simp add: update_conv')
    with c True show ?thesis by blast
  next
    case False
    with Cons.prems have fin: "f \<in> set fs" and dis: "distinct (map fname fs)"
      and "fname a \<notin> fname ` set fs"
      by auto
    then have ne: "fname f \<noteq> fname a" by (metis image_eqI)
    from ne d1 have "map_of d1 (fname f) = map_of d (fname f)"
      by (simp add: update_conv')
    with Cons.IH[OF rest fin dis] show ?thesis by simp
  qed
qed

lemma random_randint_range:
  assumes "random_randint a b g = Inr (l, g')"
  shows "a \<le> l \<and> l \<le> b"
proof -
  from assms have ab: "a \<le> b" and l: "l = a + int (py_tape g (py_pos g) mod nat (b - a + 1))"
    by (auto simp: random_randint_def split: if_splits)
  have "py_tape g (py_pos g) mod nat (b - a + 1) < nat (b - a + 1)"
    using ab by (intro mod_less_divisor) simp
  with l ab show ?thesis by linarith
qed

lemma draw_session_length_ok:
  assumes "draw_session_length mx mn g = Inr (sl, g')"
  shows "sl_ok mx mn sl"
  using assms random_randint_range
  by (fastforce simp: draw_session_length_def sl_ok_def split: option.splits if_splits sum.splits)

lemma generate_col_invariant:
  assumes gen: "foldM (row_step sch n mx mn) ([], g) [0..<k] = Inr (d, g')"
    and k: "k \<le> n"
    and f: "f \<in> set sch" and dis: "distinct (map fname sch)"
    and base: "P 0 None"
    and step: "\<And>i sl old c g1 g2. i < n \<Longrightarrow> sl_ok mx mn sl \<Longrightarrow> P i old \<Longrightarrow>
                 col_step i n sl f old g1 = Inr (c, g2) \<Longrightarrow> P (Suc i) (Some c)"
  shows "P k (map_of d (fname f))"
  using gen k
proof (induction k arbitrary: d g')
  case 0
  then show ?case using base by simp
next
  case (Suc k)
  from Suc.prems(1) obtain d1 g1 where
    pre: "foldM (row_step sch n mx mn) ([], g) [0..<k] = Inr (d1, g1)"
    and row: "row_step sch n mx mn (d1, g1) k = Inr (d, g')"
    by (auto simp: foldM_snoc split: sum.splits)
  from Suc.IH[OF pre] Suc.prems(2) have inv: "P k (map_of d1 (fname f))" by simp
  from row obtain sl g2 where
    sl: "draw_session_length mx mn g1 = Inr (sl, g2)"
    and fl: "foldM (feature_step k n sl) (d1, g2) sch = Inr (d, g')"
    by (auto simp: row_step_def split: sum.splits)
  from features_loop_col[OF fl f dis] obtain ga gb c where
    "col_step k n sl f (map_of d1 (fname f)) ga = Inr (c, gb)"
    and "map_of d (fname f) = Some c" by blast
  with step[OF _ draw_session_length_ok[OF sl] inv] Suc.prems(2) show ?case by auto
qed

subsection \<open>The values of a feature with an integer domain\<close>

lemma torch_randint_values:
  assumes "torch_randint low high sz g = Inr (t, g')" and "v \<in> set (tdata t)"
  shows "v \<in> \<int> \<and> real_of_int low \<le> v \<and> v < real_of_int high"
proof -
  from assms(1) have lh: "low < high"
    and t: "tdata t = map (\<lambda>r. of_int (low + int (r mod nat (high - low))))
                        (fst (torch_draws (prod_list (map nat sz)) g))"
    by (auto simp: torch_randint_def split: if_splits prod.splits)
  from assms(2) t obtain r where v: "v = of_int (low + int (r mod nat (high - low)))"
    by auto
  have "r mod nat (high - low) < nat (high - low)"
    using lh by (intro mod_less_divisor) simp
  then have "low \<le> low + int (r mod nat (high - low))"
    and "low + int (r mod nat (high - low)) < high"
    using lh by linarith+
  with v show ?thesis by (simp del: of_int_add)
qed

lemma gen_row_int_values:
  assumes "gen_row f sl g = Inr (row, g')" and "fint_domain f = Some idom"
    and "v \<in> set (tdata row)"
  shows "v \<in> \<int> \<and> 1 \<le> v \<and> v < real_of_int (id_max idom)"
proof -
  from assms(1,2) obtain sz where "torch_randint 1 (id_max idom) sz g = Inr (row, g')"
    by (auto simp: gen_row_def split: sum.splits option.splits)
  from torch_randint_values[OF this assms(3)] show ?thesis by simp
qed

lemma torch_cat_values:
  assumes "torch_cat a b = Inr c"
  shows "set (tdata c) \<subseteq> set (tdata a) \<union> set (tdata b)"
  using assms by (auto simp: torch_cat_def split: list.splits if_splits)

lemma torch_stack_values:
  assumes "torch_stack ts = Inr c"
  shows "tdata c = concat (map tdata ts)"
  using assms by (auto simp: torch_stack_def split: list.splits if_splits)

lemma accumulate_values:
  assumes "accumulate f i n old row = Inr c"
  shows "set (column_values c) \<subseteq>
           (case old of None \<Rightarrow> {} | Some c0 \<Rightarrow> set (column_values c0)) \<union> set (tdata row)"
proof (cases old)
  case None
  with assms show ?thesis
    by (auto simp: accumulate_def split: sum.splits if_splits)
next
  case (Some c0)
  show ?thesis
  proof (cases c0)
    case (Dense t)
    with Some assms show ?thesis
      by (auto simp: accumulate_def split: sum.splits if_splits
               dest!: torch_cat_values torch_stack_values)
  next
    case (Ragged v lens)
    with Some assms show ?thesis
      by (auto simp: accumulate_def split: sum.splits if_splits
               dest!: torch_cat_values torch_stack_values)
  next
    case (Pending ts)
    with Some assms show ?thesis
      by (auto simp: accumulate_def split: sum.splits if_splits
               dest!: torch_cat_values torch_stack_values)
  qed
qed

lemma col_step_Inr:
  assumes "col_step i n sl f old g = Inr (c, g')"
  obtains row where "gen_row f sl g = Inr (row, g')" and "accumulate f i n old row = Inr c"
  using assms by (auto simp: col_step_def split: sum.splits prod.splits)

lemma generate_int_values:
  assumes gen: "generate g sch n mx mn = Inr (dat, g')"
    and wf: "wf_schema sch" and f: "f \<in> set sch" and dom: "fint_domain f = Some idom"
    and c: "map_of dat (fname f) = Some c" and v: "v \<in> set (column_values c)"
  shows "v \<in> \<int> \<and> 1 \<le> v \<and> v < real_of_int (id_max idom)"
proof -
  define ok where "ok v \<longleftrightarrow> v \<in> \<int> \<and> 1 \<le> v \<and> v < real_of_int (id_max idom)" for v
  define P where "P (i::nat) co \<longleftrightarrow> (\<forall>c. co = Some c \<longrightarrow> (\<forall>v\<in>set (column_values c). ok v))"
    for i and co :: "column option"
  have "P n (map_of dat (fname f))"
  proof (rule generate_col_invariant[where P = P and k = n and n = n])
    show "foldM (row_step sch n mx mn) ([], g) [0..<n] = Inr (dat, g')"
      using gen by (simp add: generate_def)
    show "distinct (map fname sch)" using wf by (simp add: wf_schema_def)
    show "P 0 None" by (simp add: P_def)
  next
    fix i sl old c g1 g2
    assume inv: "P i old" and st: "col_step i n sl f old g1 = Inr (c, g2)"
    from st obtain row where row: "gen_row f sl g1 = Inr (row, g2)"
      and acc: "accumulate f i n old row = Inr c"
      by (rule col_step_Inr)
    from gen_row_int_values[OF row dom] have "\<forall>v\<in>set (tdata row). ok v"
      by (simp add: ok_def)
    with accumulate_values[OF acc] inv show "P (Suc i) (Some c)"
      by (auto simp: P_def split: option.splits)
  qed (use f in simp_all)
  with c v show ?thesis by (simp add: P_def ok_def)
qed

subsection \<open>The keys of the data and of the outputs\<close>

lemma update_absent:
  "k \<notin> fst ` set al \<Longrightarrow> AList.update k v al = al @ [(k, v)]"
  by (induction al) auto

lemma update_present_keys:
  "k \<in> fst ` set al \<Longrightarrow> map fst (AList.update k v al) = map fst al"
  by (induction al) auto

lemma features_loop_new_keys:
  assumes "foldM (feature_step i n sl) (d, g) fs = Inr (d', g')"
    and "distinct (map fname fs)" and "fname ` set fs \<inter> fst ` set d = {}"
  shows "map fst d' = map fst d @ map fname fs"
  using assms
proof (induction fs arbitrary: d g)
  case Nil
  then show ?case by simp
next
  case (Cons a fs)
  from Cons.prems(1) obtain d1 g1 where
    st: "feature_step i n sl (d, g) a = Inr (d1, g1)"
    and rest: "foldM (feature_step i n sl) (d1, g1) fs = Inr (d', g')"
    by (auto split: sum.splits)
  from st obtain c where "d1 = AList.update (fname a) c d"
    by (rule feature_step_Inr)
  with Cons.prems(3) have d1: "d1 = d @ [(fname a, c)]"
    by (simp add: update_absent)
  with Cons.prems(2,3) have "fname ` set fs \<inter> fst ` set d1 = {}"
    by auto
  from Cons.IH[OF rest _ this] Cons.prems(2) d1 show ?case by simp
qed

lemma features_loop_old_keys:
  assumes "foldM (feature_step i n sl) (d, g) fs = Inr (d', g')"
    and "fname ` set fs \<subseteq> fst ` set d"
  shows "map fst d' = map fst d"
  using assms
proof (induction fs arbitrary: d g)
  case Nil
  then show ?case by simp
next
  case (Cons a fs)
  from Cons.prems(1) obtain d1 g1 where
    st: "feature_step i n sl (d, g) a = Inr (d1, g1)"
    and rest: "foldM (feature_step i n sl) (d1, g1) fs = Inr (d', g')"
    by (auto split: sum.splits)
  from st obtain c where "d1 = AList.update (fname a) c d"
    by (rule feature_step_Inr)
  with Cons.prems(2) have k: "map fst d1 = map fst d"
    by (simp add: update_present_keys)
  then have "fst ` set d1 = fst ` set d" by (metis set_map)
  with Cons.prems(2) have "fname ` set fs \<subseteq> fst ` set d1" by simp
  from Cons.IH[OF rest this] k show ?case by simp
qed

lemma generate_keys:
  assumes gen: "generate g sch n mx mn = Inr (dat, g')"
    and wf: "wf_schema sch" and n: "0 < n"
  shows "map fst dat = map fname sch"
proof -
  have "foldM (row_step sch n mx mn) ([], g) [0..<Suc k] = Inr (d, h)
          \<Longrightarrow> map fst d = map fname sch" for k d h
  proof (induction k arbitrary: d h)
    case 0
    then obtain sl g2 where "foldM (feature_step 0 n sl) ([], g2) sch = Inr (d, h)"
      by (auto simp: row_step_def split: sum.splits)
    from features_loop_new_keys[OF this] wf show ?case
      by (simp add: wf_schema_def)
  next
    case (Suc k)
    from Suc.prems obtain d1 g1 where
      pre: "foldM (row_step sch n mx mn) ([], g) [0..<Suc k] = Inr (d1, g1)"
      and row: "row_step sch n mx mn (d1, g1) (Suc k) = Inr (d, h)"
      using foldM_snoc[of "row_step sch n mx mn" "([], g)" "[0..<Suc k]" "Suc k"]
      by (auto split: sum.splits)
    from Suc.IH[OF pre] have k1: "map fst d1 = map fname sch" .
    then have "fname ` set sch \<subseteq> fst ` set d1" by (metis set_map subset_refl)
    moreover from row obtain sl g2 where
      "foldM (feature_step (Suc k) n sl) (d1, g2) sch = Inr (d, h)"
      by (auto simp: row_step_def split: sum.splits)
    ultimately show ?case using features_loop_old_keys k1 by metis
  qed
  moreover from n obtain k where "n = Suc k" by (cases n) auto
  ultimately show ?thesis using gen by (simp add: generate_def)
qed

lemma output_step_Inr:
  assumes "output_step mx acc kv = Inr a1"
  obtains c' where "densify mx (snd kv) = Inr c'" and "a1 = AList.update (fst kv) c' acc"
  using assms by (auto simp: output_step_def split: sum.splits)

lemma output_loop_lookup:
  assumes "foldM (output_step mx) acc dat = Inr outs" and "distinct (map fst dat)"
  shows "map_of outs k =
           (case map_of dat k of None \<Rightarrow> map_of acc k
            | Some c \<Rightarrow> (case densify mx c of Inl e \<Rightarrow> None | Inr c' \<Rightarrow> Some c'))
         \<and> (\<forall>c. map_of dat k = Some c \<longrightarrow> (\<exists>c'. densify mx c = Inr c'))"
  using assms
proof (induction dat arbitrary: acc)
  case Nil
  then show ?case by simp
next
  case (Cons kv dat)
  from Cons.prems(1) obtain a1 where
    st: "output_step mx acc kv = Inr a1"
    and rest: "foldM (output_step mx) a1 dat = Inr outs"
    by (auto split: sum.splits)
  from st obtain c' where c': "densify mx (snd kv) = Inr c'"
    and a1: "a1 = AList.update (fst kv) c' acc"
    by (rule output_step_Inr)
  from Cons.prems(2) have dis: "distinct (map fst dat)"
    and none: "map_of dat (fst kv) = None"
    by (simp_all add: map_of_eq_None_iff)
  note IH = Cons.IH[OF rest dis]
  show ?case
  proof (cases "k = fst kv")
    case True
    with IH none a1 c' show ?thesis
      by (cases kv) (simp add: update_conv')
  next
    case False
    with IH a1 show ?thesis
      by (cases kv) (auto simp: update_conv' split: option.splits)
  qed
qed

lemma output_loop_keys:
  assumes "foldM (output_step mx) acc dat = Inr outs"
    and "distinct (map fst dat)" and "fst ` set acc \<inter> fst ` set dat = {}"
  shows "map fst outs = map fst acc @ map fst dat"
  using assms
proof (induction dat arbitrary: acc)
  case Nil
  then show ?case by simp
next
  case (Cons kv dat)
  from Cons.prems(1) obtain a1 where
    st: "output_step mx acc kv = Inr a1"
    and rest: "foldM (output_step mx) a1 dat = Inr outs"
    by (auto split: sum.splits)
  from st obtain c' where "a1 = AList.update (fst kv) c' acc"
    by (rule output_step_Inr)
  with Cons.prems(3) have a1: "a1 = acc @ [(fst kv, c')]"
    by (simp add: update_absent)
  with Cons.prems(2,3) have disj: "fst ` set a1 \<inter> fst ` set dat = {}"
    by auto
  from Cons.prems(2) have dis: "distinct (map fst dat)" by simp
  from Cons.IH[OF rest dis disj] a1 show ?case by simp
qed

lemma random_data_from_schema_Inr:
  assumes "random_data_from_schema g sch n mx mn = Inr (outputs, g')"
  obtains dat where "generate g sch n mx mn = Inr (dat, g')"
    and "foldM (output_step mx) [] dat = Inr outputs"
  using assms by (auto simp: random_data_from_schema_def split: sum.splits prod.splits)

subsection \<open>Offsets, coordinates and the padded matrix\<close>

text \<open>
  For row lengths \<open>lens\<close> and as many flat values as their sum, the offsets are the
  starts of the rows, their differences are the lengths, the coordinates are those of
  \<open>ragged_indices\<close>, and the cell at row \<open>r\<close> and column \<open>c\<close> of the dense matrix is
  the value \<open>c\<close> of row \<open>r\<close>, or zero beyond the length of the row.
\<close>

lemma length_starts [simp]: "length (starts b ls) = length ls"
  by (induction ls arbitrary: b) auto

lemma starts_snoc: "starts b (ls @ [z]) = starts b ls @ [int (b + sum_list ls)]"
  by (induction ls arbitrary: b) (auto simp: add.assoc)

lemma offsets_fold:
  assumes "acc \<noteq> []" and "last acc = int b"
  shows "foldl (\<lambda>offsets l. offsets @ [last offsets + int l]) acc xs
           = acc @ tl (starts b (xs @ [z]))"
  using assms
proof (induction xs arbitrary: acc b)
  case Nil
  then show ?case by simp
next
  case (Cons x xs)
  have "foldl (\<lambda>offsets l. offsets @ [last offsets + int l]) (acc @ [last acc + int x]) xs
          = (acc @ [last acc + int x]) @ tl (starts (b + x) (xs @ [z]))"
    by (rule Cons.IH) (use Cons.prems in auto)
  moreover have "starts (b + x) (xs @ [z]) = int (b + x) # tl (starts (b + x) (xs @ [z]))"
    by (cases xs) auto
  ultimately show ?case using Cons.prems by simp
qed

lemma offsets_of_starts:
  assumes "lens \<noteq> []"
  shows "offsets_of lens = starts 0 lens"
proof -
  have "offsets_of lens = [0] @ tl (starts 0 (butlast lens @ [last lens]))"
    unfolding offsets_of_def by (rule offsets_fold) auto
  also have "butlast lens @ [last lens] = lens" using assms by simp
  also have "[0] @ tl (starts 0 lens) = starts 0 lens" using assms by (cases lens) auto
  finally show ?thesis .
qed

lemma diff_starts:
  "map2 (\<lambda>a b. a - b) (tl (starts b ls @ [int (b + sum_list ls)])) (starts b ls) = map int ls"
proof (induction ls arbitrary: b)
  case Nil
  then show ?case by simp
next
  case (Cons l ls)
  have hd: "starts (b + l) ls @ [int (b + l + sum_list ls)]
              = int (b + l) # tl (starts (b + l) ls @ [int (b + l + sum_list ls)])"
    by (cases ls) auto
  have "map2 (\<lambda>a b. a - b) (tl (starts b (l # ls) @ [int (b + sum_list (l # ls))])) (starts b (l # ls))
      = map2 (\<lambda>a b. a - b) (starts (b + l) ls @ [int (b + l + sum_list ls)]) (int b # starts (b + l) ls)"
    by (simp add: add.assoc)
  also have "\<dots> = map2 (\<lambda>a b. a - b)
       (int (b + l) # tl (starts (b + l) ls @ [int (b + l + sum_list ls)])) (int b # starts (b + l) ls)"
    using hd by simp
  also have "\<dots> = int l # map int ls"
    using Cons.IH[of "b + l"] by simp
  finally show ?case by simp
qed

lemma pull_values_offsets_ragged:
  assumes "lens \<noteq> []" and "length (tdata v) = sum_list lens"
  shows "pull_values_offsets (ValuesOffsets v (offsets_of lens))
           = (tdata v, starts 0 lens @ [int (sum_list lens)], map int lens, length lens)"
  using assms diff_starts[of 0 lens]
  by (simp add: pull_values_offsets_def offsets_of_starts Let_def butlast_append)

lemma repeat_interleave_nat:
  assumes "length xs = length ls"
  shows "repeat_interleave xs (map int ls) = Inr (concat (map2 (\<lambda>x l. replicate l x) xs ls))"
proof -
  have "\<not> list_ex (\<lambda>r. r < 0) (map int ls)" by (simp add: list_ex_iff)
  moreover have "map2 (\<lambda>x r. replicate (nat r) x) xs (map int ls) = map2 (\<lambda>x l. replicate l x) xs ls"
    by (simp add: zip_map2 case_prod_unfold)
  ultimately show ?thesis using assms by (simp add: repeat_interleave_def)
qed

lemma length_rep_starts:
  "length (concat (map2 (\<lambda>x l. replicate l x) (starts b ls) ls)) = sum_list ls"
  by (induction ls arbitrary: b) auto

lemma zip_replicate_upt:
  "zip (replicate l x) (map int [0..<l]) = map (\<lambda>c. (x, int c)) [0..<l]"
  by (rule nth_equalityI) auto

lemma sub_replicate_upt:
  "map2 (\<lambda>a b. a - b) (map int [b..<b + l]) (replicate l (int b)) = map int [0..<l]"
  by (rule nth_equalityI) auto

lemma ragged_indices_eq:
  "zip (concat (map2 (\<lambda>x l. replicate l x) (map int [r..<r + length ls]) ls))
       (map2 (\<lambda>a b. a - b) (map int [b..<b + sum_list ls])
             (concat (map2 (\<lambda>x l. replicate l x) (starts b ls) ls)))
     = ragged_indices r ls"
proof (induction ls arbitrary: r b)
  case Nil
  then show ?case by simp
next
  case (Cons l ls)
  define R2 where "R2 = concat (map2 (\<lambda>x l. replicate l x) (map int [Suc r..<Suc r + length ls]) ls)"
  define O2 where "O2 = concat (map2 (\<lambda>x l. replicate l x) (starts (b + l) ls) ls)"
  define C2 where "C2 = map int [b + l..<b + l + sum_list ls]"
  have "[r..<r + length (l # ls)] = r # [Suc r..<r + length (l # ls)]"
    by (rule upt_conv_Cons) simp
  then have rows: "[r..<r + length (l # ls)] = r # [Suc r..<Suc r + length ls]"
    by simp
  have R: "concat (map2 (\<lambda>x l. replicate l x) (map int [r..<r + length (l # ls)]) (l # ls))
             = replicate l (int r) @ R2"
    unfolding rows R2_def by simp
  have O: "concat (map2 (\<lambda>x l. replicate l x) (starts b (l # ls)) (l # ls))
             = replicate l (int b) @ O2"
    unfolding O2_def by simp
  have "[b..<b + sum_list (l # ls)] = [b..<b + l] @ [b + l..<b + l + sum_list ls]"
    using upt_add_eq_append[of b "b + l" "sum_list ls"] by (simp add: add.assoc)
  then have C: "map int [b..<b + sum_list (l # ls)] = map int [b..<b + l] @ C2"
    unfolding C2_def by simp
  have IH: "zip R2 (map2 (\<lambda>a b. a - b) C2 O2) = ragged_indices (Suc r) ls"
    unfolding R2_def C2_def O2_def by (rule Cons.IH)
  have "map2 (\<lambda>a b. a - b) (map int [b..<b + l] @ C2) (replicate l (int b) @ O2)
          = map int [0..<l] @ map2 (\<lambda>a b. a - b) C2 O2"
    using sub_replicate_upt[of b l] by simp
  then have "zip (replicate l (int r) @ R2)
                 (map2 (\<lambda>a b. a - b) (map int [b..<b + l] @ C2) (replicate l (int b) @ O2))
          = map (\<lambda>c. (int r, int c)) [0..<l] @ ragged_indices (Suc r) ls"
    using zip_replicate_upt[of l "int r"] IH by simp
  then show ?case unfolding R O C by simp
qed

lemma get_indices_ragged:
  assumes "lens \<noteq> []"
  shows "get_indices (starts 0 lens @ [int (sum_list lens)]) (map int lens)
           = Inr (ragged_indices 0 lens)"
proof -
  have a: "repeat_interleave (map int [0..<length lens]) (map int lens)
         = Inr (concat (map2 (\<lambda>x l. replicate l x) (map int [0..<length lens]) lens))"
    by (rule repeat_interleave_nat) simp
  have b: "repeat_interleave (starts 0 lens) (map int lens)
         = Inr (concat (map2 (\<lambda>x l. replicate l x) (starts 0 lens) lens))"
    by (rule repeat_interleave_nat) simp
  show ?thesis
    using ragged_indices_eq[of 0 lens 0]
    by (simp add: get_indices_def a b butlast_append length_rep_starts Let_def)
qed

lemma length_ragged_indices [simp]: "length (ragged_indices r ls) = sum_list ls"
  by (induction ls arbitrary: r) auto

lemma ragged_indices_mem:
  assumes "ix \<in> set (ragged_indices r0 ls)"
  shows "\<exists>r c. ix = (int r, int c) \<and> r0 \<le> r \<and> r < r0 + length ls \<and> c < ls ! (r - r0)"
  using assms
proof (induction ls arbitrary: r0)
  case Nil
  then show ?case by simp
next
  case (Cons l ls)
  from Cons.prems consider "ix \<in> (\<lambda>c. (int r0, int c)) ` {0..<l}"
    | "ix \<in> set (ragged_indices (Suc r0) ls)" by auto
  then show ?case
  proof cases
    case 1
    then obtain c where "ix = (int r0, int c)" and "c < l" by auto
    then show ?thesis by (intro exI[of _ r0] exI[of _ c]) simp
  next
    case 2
    from Cons.IH[OF this] obtain r c where "ix = (int r, int c)" and "Suc r0 \<le> r"
      and "r < Suc r0 + length ls" and "c < ls ! (r - Suc r0)" by blast
    moreover from \<open>Suc r0 \<le> r\<close> have "r - r0 = Suc (r - Suc r0)" by simp
    ultimately show ?thesis
      by (intro exI[of _ r] exI[of _ c]) simp
  qed
qed

lemma block_cell:
  assumes "b = a + length xs"
  shows "sum_list (map snd (filter (\<lambda>p. fst p = (R, int c))
       (zip (map (\<lambda>c'. (R', int c')) [a..<b]) xs)))
     = (if R = R' \<and> a \<le> c \<and> c < b then xs ! (c - a) else (0::real))"
  using assms
proof (induction xs arbitrary: a)
  case Nil
  then show ?case by simp
next
  case (Cons x xs)
  have u: "[a..<b] = a # [Suc a..<b]"
    by (rule upt_conv_Cons) (use Cons.prems in simp)
  have "b = Suc a + length xs" using Cons.prems by simp
  note IH = Cons.IH[OF this]
  have ab: "a < b" using Cons.prems by simp
  show ?case
  proof (cases "c = a")
    case True
    with IH ab show ?thesis unfolding u by auto
  next
    case False
    then have "a \<le> c \<longleftrightarrow> Suc a \<le> c" by auto
    moreover have "Suc a \<le> c \<Longrightarrow> (x # xs) ! (c - a) = xs ! (c - Suc a)"
      by (simp add: nth_Cons')
    ultimately show ?thesis unfolding u using IH False by auto
  qed
qed

lemma sum_list_take_nth_le:
  "k < length ls \<Longrightarrow> sum_list (take k ls) + ls ! k \<le> sum_list (ls::nat list)"
proof (induction ls arbitrary: k)
  case Nil
  then show ?case by simp
next
  case (Cons l ls)
  then show ?case by (cases k) auto
qed

lemma ragged_cell:
  assumes "length vals = sum_list ls"
  shows "sum_list (map snd (filter (\<lambda>p. fst p = (int r, int c)) (zip (ragged_indices r0 ls) vals)))
     = (if r0 \<le> r \<and> r < r0 + length ls \<and> c < ls ! (r - r0)
        then vals ! (sum_list (take (r - r0) ls) + c) else (0::real))"
  using assms
proof (induction ls arbitrary: r0 vals)
  case Nil
  then show ?case by simp
next
  case (Cons l ls)
  define A where "A = map (\<lambda>c. (int r0, int c)) [0..<l]"
  have lenA: "length A = l" by (simp add: A_def)
  have split: "zip (ragged_indices r0 (l # ls)) vals
                 = zip A (take l vals) @ zip (ragged_indices (Suc r0) ls) (drop l vals)"
    using lenA by (simp add: A_def[symmetric] zip_append1)
  have lt: "length (take l vals) = l" using Cons.prems by simp
  have first: "sum_list (map snd (filter (\<lambda>p. fst p = (int r, int c)) (zip A (take l vals))))
                 = (if r = r0 \<and> c < l then vals ! c else 0)"
    using block_cell[of l 0 "take l vals" "int r" c "int r0"] lt
    by (auto simp: A_def)
  have ld: "length (drop l vals) = sum_list ls" using Cons.prems by simp
  have rest: "sum_list (map snd (filter (\<lambda>p. fst p = (int r, int c))
                 (zip (ragged_indices (Suc r0) ls) (drop l vals))))
               = (if Suc r0 \<le> r \<and> r < Suc r0 + length ls \<and> c < ls ! (r - Suc r0)
                  then drop l vals ! (sum_list (take (r - Suc r0) ls) + c) else 0)"
    by (rule Cons.IH[OF ld])
  show ?case
  proof (cases "r = r0")
    case True
    with first rest show ?thesis unfolding split by simp
  next
    case False
    have nth: "(l # ls) ! (r - r0) = ls ! (r - Suc r0)" if "Suc r0 \<le> r"
      using that by (simp add: nth_Cons')
    have tk: "take (r - r0) (l # ls) = l # take (r - Suc r0) ls" if "Suc r0 \<le> r"
      using that by (simp add: take_Cons')
    show ?thesis
    proof (cases "Suc r0 \<le> r \<and> r < Suc r0 + length ls \<and> c < ls ! (r - Suc r0)")
      case True
      define k where "k = r - Suc r0"
      from True have "k < length ls" unfolding k_def by linarith
      then have "sum_list (take k ls) + ls ! k \<le> sum_list ls"
        by (rule sum_list_take_nth_le)
      with True Cons.prems have "l + (sum_list (take k ls) + c) \<le> length vals"
        unfolding k_def by simp
      then have "drop l vals ! (sum_list (take k ls) + c) = vals ! (l + sum_list (take k ls) + c)"
        by (simp add: add.assoc)
      with True False first rest nth tk show ?thesis unfolding split k_def by simp
    next
      case F2: False
      have n1: "\<not> (r0 \<le> r \<and> r < r0 + length (l # ls) \<and> c < (l # ls) ! (r - r0))"
      proof
        assume a: "r0 \<le> r \<and> r < r0 + length (l # ls) \<and> c < (l # ls) ! (r - r0)"
        with False have "Suc r0 \<le> r" by simp
        with a nth F2 show False by simp
      qed
      have "sum_list (map snd (filter (\<lambda>p. fst p = (int r, int c))
              (zip (ragged_indices r0 (l # ls)) vals))) = 0"
        unfolding split using first rest False F2 by (simp only: filter_append map_append sum_list_append if_False simp_thms)
      then show ?thesis using n1 by (simp only: if_False)
    qed
  qed
qed

lemma nth_concat_uniform:
  assumes "r < n" and "c < w"
  shows "concat (map (\<lambda>r. map (f r) [0..<w]) [0..<n]) ! (r * w + c) = f r c"
  using assms
proof (induction n)
  case 0
  then show ?case by simp
next
  case (Suc n)
  have len: "length (concat (map (\<lambda>r. map (f r) [0..<w]) [0..<n])) = n * w"
    by (induction n) auto
  show ?case
  proof (cases "r < n")
    case True
    then have "r * w + c < n * w"
      using Suc.prems(2) by (metis add.commute mult_Suc less_le_trans add_less_cancel_left mult_le_mono1 Suc_leI)
    with True Suc show ?thesis by (simp add: nth_append len)
  next
    case False
    with Suc.prems have "r = n" by simp
    with Suc.prems show ?thesis by (simp add: nth_append len)
  qed
qed

lemma sparse_args_ragged:
  assumes "lens \<noteq> []" and "length (tdata v) = sum_list lens"
    and "seq_limit_of mx lens = Inr w"
  shows "sparse_args mx v lens = Inr (tdata v, ragged_indices 0 lens, length lens, w)"
  using assms
  by (simp add: sparse_args_def pull_values_offsets_ragged get_indices_ragged)

lemma ragged_indices_in_bounds:
  assumes "\<forall>l\<in>set lens. int l \<le> w" and "ix \<in> set (ragged_indices 0 lens)"
  shows "in_bounds (length lens) w ix"
proof -
  from ragged_indices_mem[OF assms(2)] obtain r c where ix: "ix = (int r, int c)"
    and r: "r < length lens" and c: "c < lens ! r" by auto
  from r assms(1) have "int (lens ! r) \<le> w" by simp
  with ix r c show ?thesis by (simp add: in_bounds_def)
qed

lemma row_values_nth:
  assumes "length (tdata v) = sum_list lens" and "r < length lens" and "c < lens ! r"
  shows "row_values v lens r ! c = tdata v ! (sum_list (take r lens) + c)"
proof -
  from sum_list_take_nth_le[OF assms(2)] assms(1)
  have "sum_list (take r lens) \<le> length (tdata v)" by simp
  with assms(3) show ?thesis by (simp add: row_values_def)
qed

lemma get_sparse_tensor_ragged:
  assumes len: "length (tdata v) = sum_list lens"
    and w: "0 \<le> w" and fit: "\<forall>l\<in>set lens. int l \<le> w"
  shows "\<exists>t. get_sparse_tensor (tdata v) (ragged_indices 0 lens) (length lens) w = Inr t
           \<and> tshape t = [length lens, nat w]
           \<and> length (tdata t) = length lens * nat w
           \<and> (\<forall>r<length lens. \<forall>c<nat w.
                cell t r c = (if c < lens ! r then row_values v lens r ! c else 0))"
proof -
  define f where "f r c = sum_list (map snd (filter (\<lambda>p. fst p = (int r, int c))
                            (zip (ragged_indices 0 lens) (tdata v))))" for r c
  define t where "t = \<lparr>tshape = [length lens, nat w],
      tdata = concat (map (\<lambda>r. map (f r) [0..<nat w]) [0..<length lens])\<rparr>"
  have nb: "\<not> list_ex (\<lambda>ix. \<not> in_bounds (length lens) w ix) (ragged_indices 0 lens)"
    using ragged_indices_in_bounds[OF fit] by (auto simp: list_ex_iff)
  have res: "get_sparse_tensor (tdata v) (ragged_indices 0 lens) (length lens) w = Inr t"
    using w len nb unfolding get_sparse_tensor_def t_def f_def by simp
  have lt: "length (tdata t) = length lens * nat w"
  proof -
    have "length (concat (map (\<lambda>r. map (f r) [0..<nat w]) [0..<n])) = n * nat w" for n
      by (induction n) auto
    then show ?thesis by (simp add: t_def)
  qed
  have cells: "cell t r c = (if c < lens ! r then row_values v lens r ! c else 0)"
    if "r < length lens" and "c < nat w" for r c
  proof -
    have "cell t r c = f r c"
      using nth_concat_uniform[OF that, of f] by (simp add: cell_def t_def)
    also have "\<dots> = (if c < lens ! r then tdata v ! (sum_list (take r lens) + c) else 0)"
      unfolding f_def using ragged_cell[OF len, of r c 0] that by simp
    also have "\<dots> = (if c < lens ! r then row_values v lens r ! c else 0)"
      using row_values_nth[OF len that(1)] by simp
    finally show ?thesis .
  qed
  from res lt cells show ?thesis by (intro exI[of _ t]) (simp add: t_def)
qed


subsection \<open>The column of a list feature\<close>

lemma length_torch_draws: "torch_draws k g = (rs, g') \<Longrightarrow> length rs = k"
  by (auto simp: torch_draws_def)

lemma gen_row_list:
  assumes "gen_row f sl g = Inr (row, g')" and "fvalue_count f = Some vc"
  shows "0 \<le> list_length sl vc \<and> tshape row = [nat (list_length sl vc)]
         \<and> length (tdata row) = nat (list_length sl vc)"
proof (cases "fint_domain f")
  case None
  with assms have "torch_rand [list_length sl vc] g = Inr (row, g')"
    by (auto simp: gen_row_def split: sum.splits)
  then show ?thesis
    by (auto simp: torch_rand_def split: if_splits prod.splits dest: length_torch_draws)
next
  case (Some idom)
  with assms have "torch_randint 1 (id_max idom) [list_length sl vc] g = Inr (row, g')"
    by (auto simp: gen_row_def split: sum.splits)
  then show ?thesis
    by (auto simp: torch_randint_def split: if_splits prod.splits dest: length_torch_draws)
qed

lemma accumulate_list:
  assumes acc: "accumulate f i n old row = Inr c" and vc: "fvalue_count f = Some vc"
    and row: "tshape row = [l]" "length (tdata row) = l"
    and inv: "ragged_inv Q i old" and q: "Q l"
  shows "ragged_inv Q (Suc i) (Some c)"
proof (cases old)
  case None
  with acc vc row have "c = Ragged row [l]"
    by (auto simp: accumulate_def tensor_len_def split: sum.splits)
  with row q inv None show ?thesis by (simp add: ragged_inv_def)
next
  case (Some c0)
  with inv obtain v lens where c0: "c0 = Ragged v lens" and i: "0 < i" "length lens = i"
    and v: "tshape v = [sum_list lens]" "length (tdata v) = sum_list lens"
    and ql: "list_all Q lens"
    by (cases c0) (auto simp: ragged_inv_def)
  have "torch_cat v row = Inr \<lparr>tshape = [sum_list lens + l], tdata = tdata v @ tdata row\<rparr>"
    using v row by (simp add: torch_cat_def)
  with acc vc Some c0 row
  have "c = Ragged \<lparr>tshape = [sum_list lens + l], tdata = tdata v @ tdata row\<rparr> (lens @ [l])"
    by (auto simp: accumulate_def tensor_len_def split: sum.splits)
  with i v row ql q show ?thesis by (simp add: ragged_inv_def)
qed

lemma list_col_step:
  assumes st: "col_step i n sl f old g1 = Inr (c, g2)" and vc: "fvalue_count f = Some vc"
    and inv: "ragged_inv Q i old"
    and q: "0 \<le> list_length sl vc \<Longrightarrow> Q (nat (list_length sl vc))"
  shows "ragged_inv Q (Suc i) (Some c)"
proof -
  from st obtain row where row: "gen_row f sl g1 = Inr (row, g2)"
    and acc: "accumulate f i n old row = Inr c"
    by (rule col_step_Inr)
  from gen_row_list[OF row vc] have "0 \<le> list_length sl vc"
    and "tshape row = [nat (list_length sl vc)]"
    and "length (tdata row) = nat (list_length sl vc)" by simp_all
  with accumulate_list[OF acc vc _ _ inv] q show ?thesis by simp
qed

lemma generate_list_inv:
  assumes gen: "generate g sch n mx mn = Inr (dat, g')"
    and wf: "wf_schema sch" and f: "f \<in> set sch" and vc: "fvalue_count f = Some vc"
    and q: "\<And>sl. sl_ok mx mn sl \<Longrightarrow> 0 \<le> list_length sl vc \<Longrightarrow> Q (nat (list_length sl vc))"
  shows "ragged_inv Q n (map_of dat (fname f))"
proof (rule generate_col_invariant[where P = "ragged_inv Q" and k = n and n = n])
  show "foldM (row_step sch n mx mn) ([], g) [0..<n] = Inr (dat, g')"
    using gen by (simp add: generate_def)
  show "distinct (map fname sch)" using wf by (simp add: wf_schema_def)
  show "ragged_inv Q 0 None" by (simp add: ragged_inv_def)
next
  fix i sl old c g1 g2
  assume "sl_ok mx mn sl" and "ragged_inv Q i old"
    and "col_step i n sl f old g1 = Inr (c, g2)"
  then show "ragged_inv Q (Suc i) (Some c)"
    using list_col_step[OF _ vc] q by blast
qed (use f in simp_all)

lemma ragged_invD:
  assumes "ragged_inv Q n co" and "0 < n"
  obtains v lens where "co = Some (Ragged v lens)" and "length lens = n"
    and "tshape v = [sum_list lens]" and "length (tdata v) = sum_list lens" and "list_all Q lens"
proof -
  from assms obtain c where co: "co = Some c" by (cases co) (auto simp: ragged_inv_def)
  with assms obtain v lens where "c = Ragged v lens"
    by (cases c) (auto simp: ragged_inv_def)
  with co assms that show ?thesis by (auto simp: ragged_inv_def)
qed

text \<open>Without a session length, every row of a list feature has the declared maximum.\<close>

lemma no_session_lengths:
  assumes "mx = None \<or> mx = Some 0" and "sl_ok mx mn sl" and "0 \<le> list_length sl vc"
  shows "int (nat (list_length sl vc)) = vc_max vc"
  using assms by (cases sl) (auto simp: sl_ok_def list_length_def)

lemma session_lengths:
  assumes "mx = Some m" and "m \<noteq> 0" and "0 < mn" and "sl_ok mx mn sl"
    and "0 \<le> list_length sl vc"
  shows "int (nat (list_length sl vc)) \<le> m"
  using assms by (cases sl) (auto simp: sl_ok_def list_length_def)

lemma seq_limit_of_eq:
  assumes "lens \<noteq> []"
  shows "seq_limit_of mx lens
           = Inr (case mx of None \<Rightarrow> int (hd lens) | Some m \<Rightarrow> if m \<noteq> 0 then m else int (hd lens))"
  using assms by (cases lens) (auto simp: seq_limit_of_def split: option.splits)

subsection \<open>The examples, evaluated\<close>

lemmas generate_defs = generate_def row_step_def draw_session_length_def feature_step_def
  col_step_def gen_row_def accumulate_def is_embedding_def shape_of_def list_length_def
  torch_randint_def torch_rand_def torch_draws_def torch_cat_def torch_stack_def tensor_len_def
  random_randint_def

lemmas output_defs = random_data_from_schema_def output_step_def densify_def sparse_args_def
  pull_values_offsets_def get_indices_def repeat_interleave_def get_sparse_tensor_def
  in_bounds_def offsets_of_def seq_limit_of_def

lemma generate_example:
  "generate example_rng [item_list, price] 2 None 5 =
     Inr ([(''item_id-list'', Ragged \<lparr>tshape = [6], tdata = [4, 2, 9, 5, 3, 1]\<rparr> [3, 3]),
           (''price'', Dense \<lparr>tshape = [2], tdata = [3 / 2097152, 13 / 4194304]\<rparr>)],
          example_rng\<lparr>torch_pos := 8\<rparr>)"
  by (simp add: generate_defs example_rng_def item_list_def price_def upt_rec)

lemma replicate_numeral: "replicate (numeral k) x = x # replicate (pred_numeral k) x"
  by (simp add: numeral_eq_Suc)

lemma random_data_example:
  "random_data_from_schema example_rng [item_list, price] 2 None 5 =
     Inr ([(''item_id-list'', Dense \<lparr>tshape = [2, 3], tdata = [4, 2, 9, 5, 3, 1]\<rparr>),
           (''price'', Dense \<lparr>tshape = [2], tdata = [3 / 2097152, 13 / 4194304]\<rparr>)],
          example_rng\<lparr>torch_pos := 8\<rparr>)"
  by (simp add: output_defs generate_example upt_rec replicate_numeral)

subsection \<open>List features and integer domains: the claims\<close>

lemma generate_distinct_keys:
  assumes gen: "generate g sch n mx mn = Inr (dat, g')" and wf: "wf_schema sch"
  shows "distinct (map fst dat)"
proof (cases n)
  case 0
  with gen show ?thesis by (simp add: generate_def)
next
  case (Suc k)
  with generate_keys[OF gen wf] wf show ?thesis by (simp add: wf_schema_def)
qed

lemma generate_has_column:
  assumes gen: "generate g sch n mx mn = Inr (dat, g')" and wf: "wf_schema sch"
    and n: "0 < n" and f: "f \<in> set sch"
  shows "map_of dat (fname f) \<noteq> None"
proof -
  from generate_keys[OF gen wf n] f have "fname f \<in> fst ` set dat"
    by (metis image_eqI set_map)
  then show ?thesis by (simp add: map_of_eq_None_iff)
qed

lemma output_of_column:
  assumes gen: "generate g sch n mx mn = Inr (dat, g')" and wf: "wf_schema sch"
    and out: "foldM (output_step mx) [] dat = Inr outputs"
    and c: "map_of dat k = Some c"
  shows "\<exists>c'. densify mx c = Inr c' \<and> map_of outputs k = Some c'"
  using output_loop_lookup[OF out generate_distinct_keys[OF gen wf], of k] c
  by (auto split: sum.splits)



lemma accumulate_nonlist:
  assumes "accumulate f i n old row = Inr c" and "fvalue_count f = None"
  shows "\<exists>t. c = Dense t \<or> (\<exists>ts. c = Pending ts)"
  using assms
  by (auto simp: accumulate_def split: sum.splits option.splits column.splits if_splits)

lemma densify_not_ragged:
  assumes "\<And>v lens. c \<noteq> Ragged v lens"
  shows "densify mx c = Inr c"
  using assms by (cases c) (auto simp: densify_def)

lemma generate_nonlist_column:
  assumes gen: "generate g sch n mx mn = Inr (dat, g')"
    and wf: "wf_schema sch" and f: "f \<in> set sch" and vc: "fvalue_count f = None"
    and c: "map_of dat (fname f) = Some c"
  shows "densify mx c = Inr c"
proof -
  define P where "P (i::nat) co \<longleftrightarrow> (\<forall>c v lens. co = Some c \<longrightarrow> c \<noteq> Ragged v lens)"
    for i and co :: "column option"
  have "P n (map_of dat (fname f))"
  proof (rule generate_col_invariant[where P = P and k = n and n = n])
    show "foldM (row_step sch n mx mn) ([], g) [0..<n] = Inr (dat, g')"
      using gen by (simp add: generate_def)
    show "distinct (map fname sch)" using wf by (simp add: wf_schema_def)
    show "P 0 None" by (simp add: P_def)
  next
    fix i sl old c g1 g2
    assume "col_step i n sl f old g1 = Inr (c, g2)"
    then obtain row where "accumulate f i n old row = Inr c"
      by (rule col_step_Inr)
    from accumulate_nonlist[OF this vc] show "P (Suc i) (Some c)"
      by (auto simp: P_def)
  qed (use f in simp_all)
  with c show ?thesis by (intro densify_not_ragged) (simp add: P_def)
qed

lemma densify_ragged_values:
  assumes d: "densify mx (Ragged v lens) = Inr c'"
    and ne: "lens \<noteq> []" and len: "length (tdata v) = sum_list lens"
  shows "\<exists>t. c' = Dense t \<and> set (tdata t) \<subseteq> set (tdata v) \<union> {0}"
proof -
  from seq_limit_of_eq[OF ne] obtain w where w: "seq_limit_of mx lens = Inr w" by blast
  from d sparse_args_ragged[OF ne len w] obtain t where
    t: "get_sparse_tensor (tdata v) (ragged_indices 0 lens) (length lens) w = Inr t"
    and c': "c' = Dense t"
    by (auto simp: densify_def split: sum.splits)
  define f where "f = (\<lambda>r c. sum_list (map snd (filter (\<lambda>p. fst p = (int r, int c))
                            (zip (ragged_indices 0 lens) (tdata v)))))"
  from t have td: "tdata t = concat (map (\<lambda>r. map (f r) [0..<nat w]) [0..<length lens])"
    by (auto simp: get_sparse_tensor_def f_def split: if_splits)
  have cellv: "f r c \<in> set (tdata v) \<union> {0}" for r c
  proof (cases "r < length lens \<and> c < lens ! r")
    case True
    then have "sum_list (take r lens) + lens ! r \<le> sum_list lens"
      by (intro sum_list_take_nth_le) simp
    with True len have "sum_list (take r lens) + c < length (tdata v)" by simp
    then have "tdata v ! (sum_list (take r lens) + c) \<in> set (tdata v)" by (rule nth_mem)
    with True show ?thesis unfolding f_def using ragged_cell[OF len, of r c 0] by simp
  next
    case False
    then show ?thesis unfolding f_def using ragged_cell[OF len, of r c 0] by auto
  qed
  have "set (tdata t) \<subseteq> set (tdata v) \<union> {0}"
    unfolding td using cellv by auto
  with c' show ?thesis by blast
qed

lemma generate_list_column:
  assumes gen: "generate g sch n mx mn = Inr (dat, g')"
    and wf: "wf_schema sch" and f: "f \<in> set sch" and vc: "fvalue_count f = Some vc"
    and c: "map_of dat (fname f) = Some c"
  obtains v lens where "c = Ragged v lens" and "lens \<noteq> []"
    and "length (tdata v) = sum_list lens"
proof -
  have inv: "ragged_inv (\<lambda>l. True) n (map_of dat (fname f))"
    by (rule generate_list_inv[OF gen wf f vc]) simp
  have n: "0 < n"
  proof (rule ccontr)
    assume "\<not> 0 < n"
    with gen have "dat = []" by (simp add: generate_def)
    with c show False by simp
  qed
  from ragged_invD[OF inv n] obtain v lens where
    r: "map_of dat (fname f) = Some (Ragged v lens)"
    and l: "length lens = n" and len: "length (tdata v) = sum_list lens" by metis
  from r c have r': "c = Ragged v lens" by simp
  from l n have "lens \<noteq> []" by auto
  from that[OF r' this len] show ?thesis .
qed

text \<open>
  Claim C4. For a feature with an integer domain of maximum \<open>M\<close>, every value generated
  for it is an integer of \<open>[1, M)\<close>, for a list feature and for any other. The values
  generated are those of the accumulated column. When the feature is not a list feature,
  that column is the output itself; when it is, the output holds these values and the
  zeros of the padding, and nothing else. The schema names each feature once.
\<close>

theorem int_domain_values_in_range:
  assumes rd: "random_data_from_schema g sch n mx mn = Inr (outputs, g')"
    and wf: "wf_schema sch" and f: "f \<in> set sch" and idom: "fint_domain f = Some idom"
  shows "\<exists>dat. generate g sch n mx mn = Inr (dat, g')
     \<and> (0 < n \<longrightarrow> map_of dat (fname f) \<noteq> None)
     \<and> (\<forall>c. map_of dat (fname f) = Some c \<longrightarrow>
           (\<forall>v\<in>set (column_values c). v \<in> \<int> \<and> 1 \<le> v \<and> v < real_of_int (id_max idom))
           \<and> (fvalue_count f = None \<longrightarrow> map_of outputs (fname f) = Some c)
           \<and> (fvalue_count f \<noteq> None \<longrightarrow>
                 (\<exists>t. map_of outputs (fname f) = Some (Dense t)
                      \<and> set (tdata t) \<subseteq> set (column_values c) \<union> {0})))"
proof -
  from rd obtain dat where gen: "generate g sch n mx mn = Inr (dat, g')"
    and out: "foldM (output_step mx) [] dat = Inr outputs"
    by (rule random_data_from_schema_Inr)
  have col: "0 < n \<longrightarrow> map_of dat (fname f) \<noteq> None"
    using generate_has_column[OF gen wf _ f] by blast
  have vals: "\<forall>v\<in>set (column_values c). v \<in> \<int> \<and> 1 \<le> v \<and> v < real_of_int (id_max idom)"
    if "map_of dat (fname f) = Some c" for c
    using generate_int_values[OF gen wf f idom that] by blast
  have o: "map_of outputs (fname f) = Some c"
    if "map_of dat (fname f) = Some c" and "fvalue_count f = None" for c
    using output_of_column[OF gen wf out that(1)] generate_nonlist_column[OF gen wf f that(2,1)]
    by simp
  have l: "\<exists>t. map_of outputs (fname f) = Some (Dense t)
              \<and> set (tdata t) \<subseteq> set (column_values c) \<union> {0}"
    if c: "map_of dat (fname f) = Some c" and "fvalue_count f \<noteq> None" for c
  proof -
    from that(2) obtain vc where vc: "fvalue_count f = Some vc" by auto
    from generate_list_column[OF gen wf f vc c] obtain v lens where r: "c = Ragged v lens"
      and ne: "lens \<noteq> []" and len: "length (tdata v) = sum_list lens" by blast
    from output_of_column[OF gen wf out c] r obtain c' where
      d: "densify mx (Ragged v lens) = Inr c'" and o': "map_of outputs (fname f) = Some c'"
      by auto
    from densify_ragged_values[OF d ne len] o' r show ?thesis by auto
  qed
  show ?thesis
    by (rule exI[of _ dat]) (intro conjI gen col allI impI vals o l)
qed

theorem int_domain_values_in_range_witness:
  "random_data_from_schema example_rng [item_list, price] 2 None 5 =
     Inr ([(''item_id-list'', Dense \<lparr>tshape = [2, 3], tdata = [4, 2, 9, 5, 3, 1]\<rparr>),
           (''price'', Dense \<lparr>tshape = [2], tdata = [3 / 2097152, 13 / 4194304]\<rparr>)],
          example_rng\<lparr>torch_pos := 8\<rparr>)
   \<and> wf_schema [item_list, price] \<and> item_list \<in> set [item_list, price]
   \<and> fint_domain item_list = Some \<lparr>id_min = 0, id_max = 10\<rparr>
   \<and> (\<exists>dat c. generate example_rng [item_list, price] 2 None 5
                         = Inr (dat, example_rng\<lparr>torch_pos := 8\<rparr>)
        \<and> map_of dat ''item_id-list'' = Some c
        \<and> (\<forall>v\<in>set (column_values c). v \<in> \<int> \<and> 1 \<le> v \<and> v < 10))"
proof -
  have wf: "wf_schema [item_list, price]"
    by (simp add: wf_schema_def item_list_def price_def)
  have f: "item_list \<in> set [item_list, price]" by simp
  have idom: "fint_domain item_list = Some \<lparr>id_min = 0, id_max = 10\<rparr>"
    by (simp add: item_list_def)
  from int_domain_values_in_range[OF random_data_example wf f idom]
  obtain dat where gen: "generate example_rng [item_list, price] 2 None 5
                         = Inr (dat, example_rng\<lparr>torch_pos := 8\<rparr>)"
    and col: "map_of dat (fname item_list) \<noteq> None"
    and vals: "\<And>c. map_of dat (fname item_list) = Some c \<Longrightarrow>
           \<forall>v\<in>set (column_values c). v \<in> \<int> \<and> 1 \<le> v \<and> v < real_of_int 10"
    by auto
  from col obtain c where c: "map_of dat (fname item_list) = Some c" by blast
  from vals[OF c] gen c show ?thesis using random_data_example wf f idom
    by (auto simp: item_list_def)
qed

lemma densify_ragged_shape:
  assumes d: "densify mx (Ragged v lens) = Inr c'"
    and ne: "lens \<noteq> []" and len: "length (tdata v) = sum_list lens"
  shows "\<exists>t w. c' = Dense t \<and> seq_limit_of mx lens = Inr w \<and> 0 \<le> w
           \<and> tshape t = [length lens, nat w]"
proof -
  from seq_limit_of_eq[OF ne] obtain w where w: "seq_limit_of mx lens = Inr w" by blast
  from d sparse_args_ragged[OF ne len w] obtain t where
    t: "get_sparse_tensor (tdata v) (ragged_indices 0 lens) (length lens) w = Inr t"
    and c': "c' = Dense t"
    by (auto simp: densify_def split: sum.splits)
  from t have "0 \<le> w" and "tshape t = [length lens, nat w]"
    by (auto simp: get_sparse_tensor_def split: if_splits)
  with w c' show ?thesis by blast
qed

lemma padded_lengths:
  assumes "mx = None \<or> mx = Some 0 \<or> 0 < mn" and "sl_ok mx mn sl"
    and "0 \<le> list_length sl vc"
  shows "int (nat (list_length sl vc)) \<le> padded_width mx vc
         \<and> (mx = None \<or> mx = Some 0 \<longrightarrow> int (nat (list_length sl vc)) = vc_max vc)"
  using assms
  by (cases sl) (auto simp: sl_ok_def list_length_def padded_width_def)

lemma seq_limit_padded:
  assumes "lens \<noteq> []" and "mx = None \<or> mx = Some 0 \<longrightarrow> int (hd lens) = vc_max vc"
  shows "seq_limit_of mx lens = Inr (padded_width mx vc)"
  using assms by (auto simp: seq_limit_of_eq padded_width_def split: option.splits)

text \<open>
  Claim C3, as amended. For a list feature, the padded width of the dense output is the
  maximum session length when one is given and is not zero, and the declared maximum
  value count of the feature otherwise. The schema names each feature once, and there
  is a row at least.
\<close>

theorem list_feature_padded_width:
  assumes rd: "random_data_from_schema g sch n mx mn = Inr (outputs, g')"
    and wf: "wf_schema sch" and f: "f \<in> set sch" and vc: "fvalue_count f = Some vc"
    and n: "0 < n"
  shows "\<exists>t w. map_of outputs (fname f) = Some (Dense t) \<and> tshape t = [n, w]
           \<and> int w = padded_width mx vc"
proof -
  from rd obtain dat where gen: "generate g sch n mx mn = Inr (dat, g')"
    and out: "foldM (output_step mx) [] dat = Inr outputs"
    by (rule random_data_from_schema_Inr)
  define Q where "Q l \<longleftrightarrow> (mx = None \<or> mx = Some 0 \<longrightarrow> int l = vc_max vc)" for l
  have "ragged_inv Q n (map_of dat (fname f))"
    using no_session_lengths by (intro generate_list_inv[OF gen wf f vc]) (auto simp: Q_def)
  from ragged_invD[OF this n] obtain v lens where
    col: "map_of dat (fname f) = Some (Ragged v lens)" and ln: "length lens = n"
    and len: "length (tdata v) = sum_list lens" and all: "list_all Q lens"
    by metis
  from ln n have ne: "lens \<noteq> []" by auto
  with all have "Q (hd lens)" by (cases lens) auto
  then have sl: "seq_limit_of mx lens = Inr (padded_width mx vc)"
    by (intro seq_limit_padded[OF ne]) (simp add: Q_def)
  from output_of_column[OF gen wf out col] obtain c' where
    d: "densify mx (Ragged v lens) = Inr c'" and o: "map_of outputs (fname f) = Some c'"
    by blast
  from densify_ragged_shape[OF d ne len] sl obtain t where "c' = Dense t"
    and "0 \<le> padded_width mx vc" and "tshape t = [length lens, nat (padded_width mx vc)]"
    by auto
  with o ln show ?thesis by (intro exI[of _ t] exI[of _ "nat (padded_width mx vc)"]) simp
qed

lemma random_data_session_example:
  "random_data_from_schema example_rng [item_list] 2 (Some 4) 2 =
     Inr ([(''item_id-list'', Dense \<lparr>tshape = [2, 4], tdata = [4, 2, 0, 0, 9, 7, 5, 0]\<rparr>)],
          example_rng\<lparr>py_pos := 2, torch_pos := 5\<rparr>)"
  by (simp add: output_defs generate_defs example_rng_def item_list_def upt_rec replicate_numeral)

theorem list_feature_padded_width_witness:
  "random_data_from_schema example_rng [item_list] 2 (Some 4) 2 =
     Inr ([(''item_id-list'', Dense \<lparr>tshape = [2, 4], tdata = [4, 2, 0, 0, 9, 7, 5, 0]\<rparr>)],
          example_rng\<lparr>py_pos := 2, torch_pos := 5\<rparr>)
   \<and> wf_schema [item_list] \<and> item_list \<in> set [item_list]
   \<and> fvalue_count item_list = Some \<lparr>vc_min = 0, vc_max = 3\<rparr>
   \<and> (\<exists>t w. map_of [(''item_id-list'', Dense \<lparr>tshape = [2, 4], tdata = [4, 2, 0, 0, 9, 7, 5, 0]\<rparr>)]
                 ''item_id-list'' = Some (Dense t)
          \<and> tshape t = [2, w] \<and> int w = 4)"
proof -
  have wf: "wf_schema [item_list]" by (simp add: wf_schema_def)
  have f: "item_list \<in> set [item_list]" by simp
  have vc: "fvalue_count item_list = Some \<lparr>vc_min = 0, vc_max = 3\<rparr>"
    by (simp add: item_list_def)
  from list_feature_padded_width[OF random_data_session_example wf f vc]
  have "\<exists>t w. map_of [(''item_id-list'', Dense \<lparr>tshape = [2, 4], tdata = [4, 2, 0, 0, 9, 7, 5, 0]\<rparr>)]
                 (fname item_list) = Some (Dense t)
          \<and> tshape t = [2, w] \<and> int w = padded_width (Some 4) \<lparr>vc_min = 0, vc_max = 3\<rparr>"
    by simp
  then show ?thesis using random_data_session_example wf f vc
    by (simp add: item_list_def padded_width_def)
qed

text \<open>
  A maximum session length of zero is given and the width is 3, the declared maximum:
  the claim as stated (the width equals the maximum session length when it is given)
  fails here.
\<close>

theorem list_feature_padded_width_counterexample:
  "random_data_from_schema example_rng [item_list] 1 (Some 0) 5 =
     Inr ([(''item_id-list'', Dense \<lparr>tshape = [1, 3], tdata = [4, 2, 9]\<rparr>)],
          example_rng\<lparr>torch_pos := 3\<rparr>)
   \<and> int (tshape \<lparr>tshape = [1, 3], tdata = [4, 2, 9]\<rparr> ! 1) \<noteq> 0"
  by (simp add: output_defs generate_defs example_rng_def item_list_def upt_rec replicate_numeral)

lemma generate_ragged_is_list:
  assumes gen: "generate g sch n mx mn = Inr (dat, g')" and wf: "wf_schema sch"
    and col: "map_of dat key = Some (Ragged v lens)"
  obtains f vc where "f \<in> set sch" and "fname f = key" and "fvalue_count f = Some vc"
    and "0 < n"
proof -
  have n: "0 < n"
  proof (rule ccontr)
    assume "\<not> 0 < n"
    with gen have "dat = []" by (simp add: generate_def)
    with col show False by simp
  qed
  from col have "key \<in> fst ` set dat" by (metis map_of_eq_None_iff option.distinct(1))
  with generate_keys[OF gen wf n] obtain f where f: "f \<in> set sch" and k: "fname f = key"
    by (metis (no_types, lifting) image_iff set_map)
  have "fvalue_count f \<noteq> None"
  proof
    assume "fvalue_count f = None"
    from generate_nonlist_column[OF gen wf f this] col k
    have "densify mx (Ragged v lens) = Inr (Ragged v lens)" by simp
    then show False
      by (auto simp: densify_def split: sum.splits prod.splits)
  qed
  with f k n that show ?thesis by auto
qed

text \<open>
  Where the coordinates are in range. In a run on a schema that names each feature once,
  with no maximum session length (or zero), or with a minimum session length of at least
  1, every coordinate handed to the sparse-to-dense step lies inside the matrix: the
  column is below the padded width and the row below the number of rows. So
  \<^verbatim>\<open>_get_sparse_tensor\<close> places no value out of range and returns.
\<close>

lemma sparse_coordinates_in_bounds:
  assumes gen: "generate g sch n mx mn = Inr (dat, g')" and wf: "wf_schema sch"
    and sess: "mx = None \<or> mx = Some 0 \<or> 0 < mn"
    and col: "map_of dat key = Some (Ragged v lens)"
  shows "\<exists>vals indices num_rows seq_limit t.
           sparse_args mx v lens = Inr (vals, indices, num_rows, seq_limit)
         \<and> (\<forall>ix\<in>set indices. in_bounds num_rows seq_limit ix)
         \<and> get_sparse_tensor vals indices num_rows seq_limit = Inr t"
proof -
  from generate_ragged_is_list[OF gen wf col] obtain f vc where
    f: "f \<in> set sch" and k: "fname f = key" and vc: "fvalue_count f = Some vc" and n: "0 < n"
    by blast
  define Q where "Q l \<longleftrightarrow> int l \<le> padded_width mx vc
                     \<and> (mx = None \<or> mx = Some 0 \<longrightarrow> int l = vc_max vc)" for l
  have "ragged_inv Q n (map_of dat (fname f))"
    using padded_lengths[OF sess] unfolding Q_def
    by (intro generate_list_inv[OF gen wf f vc]) blast
  from ragged_invD[OF this n] col k have ln: "length lens = n"
    and len: "length (tdata v) = sum_list lens" and all: "list_all Q lens"
    by auto
  from ln n have ne: "lens \<noteq> []" by auto
  with all have "Q (hd lens)" by (cases lens) auto
  then have sl: "seq_limit_of mx lens = Inr (padded_width mx vc)"
    by (intro seq_limit_padded[OF ne]) (simp add: Q_def)
  from all have fit: "\<forall>l\<in>set lens. int l \<le> padded_width mx vc"
    by (simp add: list_all_iff Q_def)
  with ne have w: "0 \<le> padded_width mx vc"
    by (cases lens) (auto intro: order_trans[of 0 "int _"])
  from get_sparse_tensor_ragged[OF len w fit] obtain t where
    t: "get_sparse_tensor (tdata v) (ragged_indices 0 lens) (length lens) (padded_width mx vc) = Inr t"
    by blast
  show ?thesis
    using sparse_args_ragged[OF ne len sl] ragged_indices_in_bounds[OF fit] t
    by (intro exI[of _ "tdata v"] exI[of _ "ragged_indices 0 lens"] exI[of _ "length lens"]
          exI[of _ "padded_width mx vc"] exI[of _ t]) simp
qed

lemma generate_session_example:
  "generate example_rng [item_list] 2 (Some 4) 2 =
     Inr ([(''item_id-list'', Ragged \<lparr>tshape = [5], tdata = [4, 2, 9, 7, 5]\<rparr> [2, 3])],
          example_rng\<lparr>py_pos := 2, torch_pos := 5\<rparr>)"
  by (simp add: generate_defs example_rng_def item_list_def upt_rec)

lemma sparse_coordinates_in_bounds_example:
  "generate example_rng [item_list] 2 (Some 4) 2 =
     Inr ([(''item_id-list'', Ragged \<lparr>tshape = [5], tdata = [4, 2, 9, 7, 5]\<rparr> [2, 3])],
          example_rng\<lparr>py_pos := 2, torch_pos := 5\<rparr>)
   \<and> wf_schema [item_list] \<and> (0::int) < 2
   \<and> (\<exists>vals indices num_rows seq_limit t.
           sparse_args (Some 4) \<lparr>tshape = [5], tdata = [4, 2, 9, 7, 5]\<rparr> [2, 3]
             = Inr (vals, indices, num_rows, seq_limit)
         \<and> (\<forall>ix\<in>set indices. in_bounds num_rows seq_limit ix)
         \<and> get_sparse_tensor vals indices num_rows seq_limit = Inr t)"
proof -
  have wf: "wf_schema [item_list]" by (simp add: wf_schema_def)
  have sess: "Some 4 = None \<or> Some (4::int) = Some 0 \<or> (0::int) < 2" by simp
  have col: "map_of [(''item_id-list'', Ragged \<lparr>tshape = [5], tdata = [4, 2, 9, 7, 5]\<rparr> [2, 3])]
               ''item_id-list'' = Some (Ragged \<lparr>tshape = [5], tdata = [4, 2, 9, 7, 5]\<rparr> [2, 3])"
    by simp
  from sparse_coordinates_in_bounds[OF generate_session_example wf sess col]
  show ?thesis using generate_session_example wf by simp
qed

text \<open>
  Claim C10 at a session length drawn as 0. The claim says that every coordinate handed
  to the sparse-to-dense step has its column below \<open>seq_limit\<close> when the minimum session
  length does not exceed the maximum. With the bounds 0 and 2 the session length drawn
  here is 0; \<^verbatim>\<open>session_length or feature.value_count.max\<close> then takes the declared
  maximum 3 as the list length, beyond the width 2, and the coordinate \<open>(0, 2)\<close> handed
  to \<^verbatim>\<open>_get_sparse_tensor\<close> is outside the matrix: the call fails on the data that
  the generator made itself.
\<close>

theorem session_length_zero_out_of_range:
  "(0::int) \<le> 2
   \<and> generate example_rng [item_list] 1 (Some 2) 0 =
       Inr ([(''item_id-list'', Ragged \<lparr>tshape = [3], tdata = [4, 2, 9]\<rparr> [3])],
            example_rng\<lparr>py_pos := 1, torch_pos := 3\<rparr>)
   \<and> sparse_args (Some 2) \<lparr>tshape = [3], tdata = [4, 2, 9]\<rparr> [3]
       = Inr ([4, 2, 9], [(0, 0), (0, 1), (0, 2)], 1, 2)
   \<and> \<not> in_bounds 1 2 (0, 2)
   \<and> random_data_from_schema example_rng [item_list] 1 (Some 2) 0 = Inl RuntimeError"
  by (simp add: output_defs generate_defs example_rng_def item_list_def upt_rec replicate_numeral)

subsection \<open>Schemas of scalar continuous features\<close>

text \<open>
  Here the call returns: when every step of every feature succeeds on a column with the
  property, so do the loops.
\<close>

lemma features_loop_total:
  assumes "distinct (map fname fs)"
    and "\<forall>f\<in>set fs. P f (map_of d (fname f))"
    and "\<And>f old g1. f \<in> set fs \<Longrightarrow> P f old \<Longrightarrow>
           \<exists>c g2. col_step i n sl f old g1 = Inr (c, g2) \<and> P' f (Some c)"
  shows "\<exists>d' g'. foldM (feature_step i n sl) (d, g) fs = Inr (d', g')
           \<and> (\<forall>f\<in>set fs. P' f (map_of d' (fname f)))"
  using assms
proof (induction fs arbitrary: d g)
  case Nil
  then show ?case by simp
next
  case (Cons a fs)
  from Cons.prems(2) have "P a (map_of d (fname a))" by simp
  from Cons.prems(3)[OF _ this, of g] obtain c g2 where
    st: "col_step i n sl a (map_of d (fname a)) g = Inr (c, g2)" and pa: "P' a (Some c)"
    by auto
  define d1 where "d1 = AList.update (fname a) c d"
  from st have fs1: "feature_step i n sl (d, g) a = Inr (d1, g2)"
    by (simp add: feature_step_def d1_def)
  from Cons.prems(1) have dis: "distinct (map fname fs)" and na: "fname a \<notin> fname ` set fs"
    by auto
  have "\<forall>f\<in>set fs. P f (map_of d1 (fname f))"
  proof
    fix f assume f: "f \<in> set fs"
    with na have "fname f \<noteq> fname a" by (metis image_eqI)
    with Cons.prems(2) f show "P f (map_of d1 (fname f))"
      by (simp add: d1_def update_conv')
  qed
  from Cons.IH[OF dis this, of g2] Cons.prems(3) obtain d' g' where
    rest: "foldM (feature_step i n sl) (d1, g2) fs = Inr (d', g')"
    and all: "\<forall>f\<in>set fs. P' f (map_of d' (fname f))"
    by auto
  from features_loop_other[OF rest na] have "map_of d' (fname a) = Some c"
    by (simp add: d1_def update_conv')
  with pa all fs1 rest show ?case by auto
qed

lemma draw_session_length_total:
  assumes "mx = None \<or> mx = Some 0 \<or> (\<exists>m. mx = Some m \<and> mn \<le> m)"
  shows "\<exists>sl g'. draw_session_length mx mn g = Inr (sl, g')"
  using assms by (auto simp: draw_session_length_def random_randint_def)

lemma generate_total:
  assumes wf: "wf_schema sch"
    and sess: "mx = None \<or> mx = Some 0 \<or> (\<exists>m. mx = Some m \<and> mn \<le> m)"
    and base: "\<forall>f\<in>set sch. P f 0 None"
    and step: "\<And>f i sl old g1. f \<in> set sch \<Longrightarrow> i < n \<Longrightarrow> P f i old \<Longrightarrow>
                 \<exists>c g2. col_step i n sl f old g1 = Inr (c, g2) \<and> P f (Suc i) (Some c)"
  shows "\<exists>dat g'. generate g sch n mx mn = Inr (dat, g')
           \<and> (\<forall>f\<in>set sch. P f n (map_of dat (fname f)))"
proof -
  have "k \<le> n \<Longrightarrow> \<exists>dat g'. foldM (row_step sch n mx mn) ([], g) [0..<k] = Inr (dat, g')
           \<and> (\<forall>f\<in>set sch. P f k (map_of dat (fname f)))" for k
  proof (induction k)
    case 0
    then show ?case using base by simp
  next
    case (Suc k)
    then obtain d1 g1 where
      pre: "foldM (row_step sch n mx mn) ([], g) [0..<k] = Inr (d1, g1)"
      and inv: "\<forall>f\<in>set sch. P f k (map_of d1 (fname f))"
      by auto
    from draw_session_length_total[OF sess] obtain sl g2 where
      sl: "draw_session_length mx mn g1 = Inr (sl, g2)" by blast
    have "\<exists>d' g'. foldM (feature_step k n sl) (d1, g2) sch = Inr (d', g')
           \<and> (\<forall>f\<in>set sch. P f (Suc k) (map_of d' (fname f)))"
    proof (rule features_loop_total[where P = "\<lambda>f. P f k"])
      show "distinct (map fname sch)" using wf by (simp add: wf_schema_def)
      show "\<forall>f\<in>set sch. P f k (map_of d1 (fname f))" by (rule inv)
    next
      fix f old g1
      assume "f \<in> set sch" and "P f k old"
      then show "\<exists>c g2. col_step k n sl f old g1 = Inr (c, g2) \<and> P f (Suc k) (Some c)"
        using step[of f k old sl g1] Suc.prems by simp
    qed
    then obtain d' g' where fl: "foldM (feature_step k n sl) (d1, g2) sch = Inr (d', g')"
      and all: "\<forall>f\<in>set sch. P f (Suc k) (map_of d' (fname f))" by blast
    from sl fl have "row_step sch n mx mn (d1, g1) k = Inr (d', g')"
      by (simp add: row_step_def)
    with pre have "foldM (row_step sch n mx mn) ([], g) [0..<Suc k] = Inr (d', g')"
      by (simp add: foldM_snoc)
    with all show ?case by blast
  qed
  from this[of n] show ?thesis by (simp add: generate_def)
qed

lemma torch_rand_unit:
  "torch_rand [1] g = Inr (\<lparr>tshape = [1], tdata = [real (torch_tape g (torch_pos g) mod 2 ^ 24) / 2 ^ 24]\<rparr>,
                          g\<lparr>torch_pos := torch_pos g + 1\<rparr>)"
  by (simp add: torch_rand_def torch_draws_def)

lemma rand_value_range: "0 \<le> real (r mod 2 ^ 24) / 2 ^ 24 \<and> real (r mod 2 ^ 24) / 2 ^ 24 < 1"
proof -
  have "r mod 2 ^ 24 < (2::nat) ^ 24" by simp
  then have "real (r mod 2 ^ 24) < 2 ^ 24"
    by (metis of_nat_less_iff of_nat_numeral of_nat_power)
  then show ?thesis by simp
qed

lemma scalar_col_step:
  assumes sc: "scalar_continuous f" and inv: "unit_inv i old"
  shows "\<exists>c g2. col_step i n sl f old g1 = Inr (c, g2) \<and> unit_inv (Suc i) (Some c)"
proof -
  define x where "x = real (torch_tape g1 (torch_pos g1) mod 2 ^ 24) / 2 ^ 24"
  define row where "row = \<lparr>tshape = [1], tdata = [x]\<rparr>"
  from sc have emb: "is_embedding f = Inr False"
    by (auto simp: scalar_continuous_def is_embedding_def)
  from sc have sh: "shape_of f = [1]"
    by (auto simp: scalar_continuous_def shape_of_def)
  from sc emb sh have row: "gen_row f sl g1 = Inr (row, g1\<lparr>torch_pos := torch_pos g1 + 1\<rparr>)"
    by (simp add: gen_row_def scalar_continuous_def torch_rand_unit row_def x_def)
  have x: "0 \<le> x \<and> x < 1" unfolding x_def by (rule rand_value_range)
  show ?thesis
  proof (cases old)
    case None
    with sc emb have "accumulate f i n old row = Inr (Dense row)"
      by (simp add: accumulate_def scalar_continuous_def)
    moreover from inv None x have "unit_inv (Suc i) (Some (Dense row))"
      by (simp add: unit_inv_def row_def)
    ultimately show ?thesis using row by (simp add: col_step_def)
  next
    case (Some c0)
    with inv obtain t where c0: "c0 = Dense t" and i: "0 < i" and t: "tshape t = [i]"
      and lt: "length (tdata t) = i"
      and vs: "\<forall>v\<in>set (tdata t). 0 \<le> v \<and> v < 1"
      by (cases c0) (auto simp: unit_inv_def)
    define t' where "t' = \<lparr>tshape = [i + 1], tdata = tdata t @ [x]\<rparr>"
    from t have "torch_cat t row = Inr t'"
      by (simp add: torch_cat_def row_def t'_def)
    with sc emb Some c0 have "accumulate f i n old row = Inr (Dense t')"
      by (simp add: accumulate_def scalar_continuous_def)
    moreover from vs x lt have "unit_inv (Suc i) (Some (Dense t'))"
      by (auto simp: unit_inv_def t'_def)
    ultimately show ?thesis using row by (simp add: col_step_def)
  qed
qed

lemma output_loop_dense:
  assumes "\<forall>kv\<in>set dat. \<exists>t. snd kv = Dense t"
    and "distinct (map fst dat)" and "fst ` set acc \<inter> fst ` set dat = {}"
  shows "foldM (output_step mx) acc dat = Inr (acc @ dat)"
  using assms
proof (induction dat arbitrary: acc)
  case Nil
  then show ?case by simp
next
  case (Cons kv dat)
  from Cons.prems(1) obtain t where t: "snd kv = Dense t" by auto
  from Cons.prems(3) have "fst kv \<notin> fst ` set acc" by auto
  then have st: "output_step mx acc kv = Inr (acc @ [kv])"
    using t by (cases kv) (simp add: output_step_def densify_def update_absent)
  have "foldM (output_step mx) (acc @ [kv]) dat = Inr ((acc @ [kv]) @ dat)"
    by (rule Cons.IH) (use Cons.prems in auto)
  with st show ?case by simp
qed

lemma scalar_continuous_total:
  assumes wf: "wf_schema sch" and sc: "\<forall>f\<in>set sch. scalar_continuous f" and n: "0 < n"
    and sess: "mx = None \<or> mx = Some 0 \<or> (\<exists>m. mx = Some m \<and> mn \<le> m)"
  shows "\<exists>outputs g'. random_data_from_schema g sch n mx mn = Inr (outputs, g')
     \<and> map fst outputs = map fname sch
     \<and> (\<forall>f\<in>set sch. \<exists>t. map_of outputs (fname f) = Some (Dense t) \<and> tshape t = [n]
            \<and> length (tdata t) = n \<and> (\<forall>v\<in>set (tdata t). 0 \<le> v \<and> v < 1))"
proof -
  have "\<exists>dat g'. generate g sch n mx mn = Inr (dat, g')
           \<and> (\<forall>f\<in>set sch. unit_inv n (map_of dat (fname f)))"
  proof (rule generate_total[OF wf sess, where P = "\<lambda>f. unit_inv"])
    show "\<forall>f\<in>set sch. unit_inv 0 None" by (simp add: unit_inv_def)
  next
    fix f i sl old g1
    assume "f \<in> set sch" and "unit_inv i old"
    with sc show "\<exists>c g2. col_step i n sl f old g1 = Inr (c, g2) \<and> unit_inv (Suc i) (Some c)"
      by (intro scalar_col_step) auto
  qed
  then obtain dat g' where gen: "generate g sch n mx mn = Inr (dat, g')"
    and inv: "\<forall>f\<in>set sch. unit_inv n (map_of dat (fname f))" by blast
  have keys: "map fst dat = map fname sch" by (rule generate_keys[OF gen wf n])
  have cols: "\<exists>t. map_of dat (fname f) = Some (Dense t) \<and> tshape t = [n]
                \<and> length (tdata t) = n \<and> (\<forall>v\<in>set (tdata t). 0 \<le> v \<and> v < 1)"
    if "f \<in> set sch" for f
  proof -
    from inv that have u: "unit_inv n (map_of dat (fname f))" by simp
    then obtain c where c: "map_of dat (fname f) = Some c"
      using n by (cases "map_of dat (fname f)") (auto simp: unit_inv_def)
    with u show ?thesis by (cases c) (auto simp: unit_inv_def)
  qed
  have dense: "\<forall>kv\<in>set dat. \<exists>t. snd kv = Dense t"
  proof
    fix kv assume kv: "kv \<in> set dat"
    then have "fst kv \<in> set (map fst dat)" by simp
    with keys obtain f where f: "f \<in> set sch" and k: "fname f = fst kv" by auto
    from cols[OF f] k obtain t where "map_of dat (fst kv) = Some (Dense t)" by auto
    moreover from kv generate_distinct_keys[OF gen wf] have "map_of dat (fst kv) = Some (snd kv)"
      by (metis map_of_is_SomeI prod.collapse)
    ultimately show "\<exists>t. snd kv = Dense t" by simp
  qed
  have "foldM (output_step mx) [] dat = Inr ([] @ dat)"
    by (rule output_loop_dense[OF dense generate_distinct_keys[OF gen wf]]) simp
  with gen have rd: "random_data_from_schema g sch n mx mn = Inr (dat, g')"
    by (simp add: random_data_from_schema_def)
  show ?thesis
    by (rule exI[of _ dat], rule exI[of _ g']) (use rd keys cols in blast)
qed

lemma generate_Inr_session:
  assumes gen: "generate g sch n mx mn = Inr (dat, g')" and n: "0 < n"
  shows "mx = None \<or> mx = Some 0 \<or> (\<exists>m. mx = Some m \<and> mn \<le> m)"
proof -
  from n have "[0..<n] = 0 # [1..<n]" by (simp add: upt_conv_Cons)
  with gen obtain s1 where "row_step sch n mx mn ([], g) 0 = Inr s1"
    by (auto simp: generate_def split: sum.splits)
  then obtain sl g1 where "draw_session_length mx mn g = Inr (sl, g1)"
    by (auto simp: row_step_def split: sum.splits)
  then show ?thesis
    by (auto simp: draw_session_length_def random_randint_def split: option.splits if_splits)
qed

text \<open>
  Claim C5. For a schema of scalar continuous features only and \<open>N \<ge> 1\<close> rows, the
  function returns a mapping with exactly one entry per feature of the schema, each a
  tensor of shape \<open>(N,)\<close> with its \<open>N\<close> elements in \<open>[0, 1)\<close>. The call returns
  whenever the session length can be drawn: with no maximum session length (the
  default), or with a minimum that does not exceed it; and whatever it returns is such
  a mapping.
\<close>

theorem scalar_continuous_outputs:
  assumes wf: "wf_schema sch" and sc: "\<forall>f\<in>set sch. scalar_continuous f" and n: "0 < n"
  shows "(mx = None \<or> mx = Some 0 \<or> (\<exists>m. mx = Some m \<and> mn \<le> m) \<longrightarrow>
            (\<exists>outputs g'. random_data_from_schema g sch n mx mn = Inr (outputs, g')))
     \<and> (\<forall>outputs g'. random_data_from_schema g sch n mx mn = Inr (outputs, g') \<longrightarrow>
            map fst outputs = map fname sch
            \<and> (\<forall>f\<in>set sch. \<exists>t. map_of outputs (fname f) = Some (Dense t) \<and> tshape t = [n]
                   \<and> length (tdata t) = n \<and> (\<forall>v\<in>set (tdata t). 0 \<le> v \<and> v < 1)))"
proof (rule conjI)
  show "mx = None \<or> mx = Some 0 \<or> (\<exists>m. mx = Some m \<and> mn \<le> m) \<longrightarrow>
            (\<exists>outputs g'. random_data_from_schema g sch n mx mn = Inr (outputs, g'))"
    using scalar_continuous_total[OF wf sc n, of mx mn g] by blast
next
  show "\<forall>outputs g'. random_data_from_schema g sch n mx mn = Inr (outputs, g') \<longrightarrow>
            map fst outputs = map fname sch
            \<and> (\<forall>f\<in>set sch. \<exists>t. map_of outputs (fname f) = Some (Dense t) \<and> tshape t = [n]
                   \<and> length (tdata t) = n \<and> (\<forall>v\<in>set (tdata t). 0 \<le> v \<and> v < 1))"
  proof (intro allI impI)
    fix outputs g'
    assume rd: "random_data_from_schema g sch n mx mn = Inr (outputs, g')"
    then obtain dat where "generate g sch n mx mn = Inr (dat, g')"
      by (rule random_data_from_schema_Inr)
    from generate_Inr_session[OF this n]
    have "mx = None \<or> mx = Some 0 \<or> (\<exists>m. mx = Some m \<and> mn \<le> m)" .
    from scalar_continuous_total[OF wf sc n this, of g] rd
    show "map fst outputs = map fname sch
            \<and> (\<forall>f\<in>set sch. \<exists>t. map_of outputs (fname f) = Some (Dense t) \<and> tshape t = [n]
                   \<and> length (tdata t) = n \<and> (\<forall>v\<in>set (tdata t). 0 \<le> v \<and> v < 1))"
      by auto
  qed
qed

theorem scalar_continuous_outputs_witness:
  "wf_schema [price, age] \<and> scalar_continuous price \<and> scalar_continuous age
   \<and> (\<exists>outputs g'. random_data_from_schema example_rng [price, age] 2 None 5 = Inr (outputs, g')
        \<and> map fst outputs = [''price'', ''age'']
        \<and> (\<forall>f\<in>set [price, age]. \<exists>t. map_of outputs (fname f) = Some (Dense t) \<and> tshape t = [2]
               \<and> length (tdata t) = 2 \<and> (\<forall>v\<in>set (tdata t). 0 \<le> v \<and> v < 1)))"
proof -
  have wf: "wf_schema [price, age]"
    by (simp add: wf_schema_def price_def age_def)
  have p: "scalar_continuous price" and a: "scalar_continuous age"
    by (simp_all add: scalar_continuous_def price_def age_def)
  then have sc: "\<forall>f\<in>set [price, age]. scalar_continuous f" by simp
  have n: "0 < (2::nat)" by simp
  note inst = scalar_continuous_outputs[OF wf sc n, of None 5 example_rng]
  from inst obtain outputs g' where
    rd: "random_data_from_schema example_rng [price, age] 2 None 5 = Inr (outputs, g')"
    by auto
  with inst have "map fst outputs = map fname [price, age]
            \<and> (\<forall>f\<in>set [price, age]. \<exists>t. map_of outputs (fname f) = Some (Dense t) \<and> tshape t = [2]
                   \<and> length (tdata t) = 2 \<and> (\<forall>v\<in>set (tdata t). 0 \<le> v \<and> v < 1))"
    by blast
  with rd wf p a show ?thesis by (auto simp: price_def age_def)
qed

subsection \<open>Embedding features\<close>

lemma gen_row_nonlist_shape:
  assumes "gen_row f sl g = Inr (row, g')" and "fvalue_count f = None"
  shows "tshape row = map nat (shape_of f) \<and> (\<forall>d\<in>set (shape_of f). 0 \<le> d)"
proof (cases "fint_domain f")
  case None
  with assms have "torch_rand (shape_of f) g = Inr (row, g')"
    by (auto simp: gen_row_def split: sum.splits)
  then show ?thesis
    by (auto simp: torch_rand_def list_ex_iff split: if_splits prod.splits)
next
  case (Some idom)
  with assms have "torch_randint 1 (id_max idom) (shape_of f) g = Inr (row, g')"
    by (auto simp: gen_row_def split: sum.splits)
  then show ?thesis
    by (auto simp: torch_randint_def list_ex_iff split: if_splits prod.splits)
qed

lemma torch_stack_shape:
  assumes "torch_stack ts = Inr t" and "u \<in> set ts"
  shows "tshape t = length ts # tshape u"
  using assms by (auto simp: torch_stack_def list_all_iff split: list.splits if_splits)

lemma accumulate_embedding:
  assumes acc: "accumulate f i n old row = Inr c" and vc: "fvalue_count f = None"
    and emb: "is_embedding f = Inr True" and row: "tshape row = S"
    and inv: "emb_inv S n i old" and i: "i < n"
  shows "emb_inv S n (Suc i) (Some c)"
proof (cases old)
  case None
  with acc vc emb have "c = Dense row" by (simp add: accumulate_def)
  with inv None row show ?thesis by (simp add: emb_inv_def)
next
  case (Some c0)
  show ?thesis
  proof (cases c0)
    case (Dense t)
    with inv Some i have i1: "i = 1" and t: "tshape t = S" by (auto simp: emb_inv_def)
    show ?thesis
    proof (cases "Suc i = n")
      case True
      with acc vc emb Some Dense obtain t' where "torch_stack [t, row] = Inr t'" and "c = Dense t'"
        by (auto simp: accumulate_def split: sum.splits if_splits)
      with torch_stack_shape[of "[t, row]" t' row] row True i1 show ?thesis
        by (simp add: emb_inv_def)
    next
      case False
      with acc vc emb Some Dense have "c = Pending [t, row]"
        by (auto simp: accumulate_def split: sum.splits if_splits)
      with False i i1 t row show ?thesis by (simp add: emb_inv_def)
    qed
  next
    case (Ragged v lens)
    with inv Some show ?thesis by (simp add: emb_inv_def)
  next
    case (Pending ts)
    with inv Some have i1: "1 < i" and l: "length ts = i" and all: "list_all (\<lambda>u. tshape u = S) ts"
      by (auto simp: emb_inv_def)
    show ?thesis
    proof (cases "Suc i = n")
      case True
      with acc vc emb Some Pending obtain t' where "torch_stack (ts @ [row]) = Inr t'"
        and "c = Dense t'"
        by (auto simp: accumulate_def split: sum.splits if_splits)
      with torch_stack_shape[of "ts @ [row]" t' row] row True l i1 show ?thesis
        by (auto simp: emb_inv_def)
    next
      case False
      with acc vc emb Some Pending have "c = Pending (ts @ [row])"
        by (auto simp: accumulate_def split: sum.splits if_splits)
      with False i i1 l all row show ?thesis by (simp add: emb_inv_def)
    qed
  qed
qed

text \<open>
  The output of an embedding feature: stacked to \<open>(N, shape)\<close> from two rows on, and
  the single row itself, of the declared shape, when \<open>N = 1\<close>.
\<close>

lemma embedding_output_shape:
  assumes rd: "random_data_from_schema g sch n mx mn = Inr (outputs, g')"
    and wf: "wf_schema sch" and f: "f \<in> set sch" and vc: "fvalue_count f = None"
    and sh: "fshape f = Some (d # ds)" and d: "1 < d" and n: "0 < n"
  shows "\<exists>t. map_of outputs (fname f) = Some (Dense t)
           \<and> tshape t = (if n = 1 then map nat (d # ds) else n # map nat (d # ds))"
proof -
  from rd obtain dat where gen: "generate g sch n mx mn = Inr (dat, g')"
    and out: "foldM (output_step mx) [] dat = Inr outputs"
    by (rule random_data_from_schema_Inr)
  define S where "S = map nat (d # ds)"
  from sh d have emb: "is_embedding f = Inr True" by (simp add: is_embedding_def)
  from sh have so: "shape_of f = d # ds" by (simp add: shape_of_def)
  have "emb_inv S n n (map_of dat (fname f))"
  proof (rule generate_col_invariant[where P = "emb_inv S n" and k = n and n = n])
    show "foldM (row_step sch n mx mn) ([], g) [0..<n] = Inr (dat, g')"
      using gen by (simp add: generate_def)
    show "distinct (map fname sch)" using wf by (simp add: wf_schema_def)
    show "emb_inv S n 0 None" by (simp add: emb_inv_def)
  next
    fix i sl old c g1 g2
    assume i: "i < n" and inv: "emb_inv S n i old"
      and st: "col_step i n sl f old g1 = Inr (c, g2)"
    from st obtain row where row: "gen_row f sl g1 = Inr (row, g2)"
      and acc: "accumulate f i n old row = Inr c"
      by (rule col_step_Inr)
    from gen_row_nonlist_shape[OF row vc] so have "tshape row = S" by (simp add: S_def)
    from accumulate_embedding[OF acc vc emb this inv i]
    show "emb_inv S n (Suc i) (Some c)" .
  qed (use f in simp_all)
  with n obtain c where c: "map_of dat (fname f) = Some c"
    and cs: "emb_inv S n n (Some c)"
    by (cases "map_of dat (fname f)") (auto simp: emb_inv_def)
  from cs obtain t where t: "c = Dense t"
    and ts: "tshape t = (if n = 1 then S else n # S)"
    by (cases c) (auto simp: emb_inv_def)
  from output_of_column[OF gen wf out c] t have "map_of outputs (fname f) = Some (Dense t)"
    by (simp add: densify_def)
  with ts show ?thesis unfolding S_def by blast
qed

text \<open>
  Claim C2 at one row. The embedding feature has the declared shape \<open>(2,)\<close>; with
  \<open>N = 1\<close> the output has shape \<open>(2,)\<close>, so its leading dimension is 2 and not 1: the
  row is stored as it is, and the stacking on the last row is never reached.
\<close>

theorem embedding_single_row_not_stacked:
  "random_data_from_schema example_rng [embedding] 1 None 5 =
     Inr ([(''emb'', Dense \<lparr>tshape = [2], tdata = [3 / 16777216, 5 / 8388608]\<rparr>)],
          example_rng\<lparr>torch_pos := 2\<rparr>)"
  by (simp add: output_defs generate_defs example_rng_def embedding_def upt_rec)

lemma embedding_two_rows_stacked:
  "random_data_from_schema example_rng [embedding] 2 None 5 =
     Inr ([(''emb'', Dense \<lparr>tshape = [2, 2],
                             tdata = [3 / 16777216, 5 / 8388608, 17 / 16777216, 3 / 2097152]\<rparr>)],
          example_rng\<lparr>torch_pos := 4\<rparr>)"
  by (simp add: output_defs generate_defs example_rng_def embedding_def upt_rec)

section \<open>Properties of the schema augmentation\<close>

lemma select_loop_missing:
  assumes "n \<in> set names" and "map_of sch n = None"
  shows "foldM (select_step sch) acc names = Inl KeyError"
  using assms
proof (induction names arbitrary: acc)
  case Nil
  then show ?case by simp
next
  case (Cons x xs)
  show ?case
  proof (cases "map_of sch x")
    case None
    then show ?thesis by (simp add: select_step_def)
  next
    case (Some cs)
    with Cons.prems have "n \<in> set xs" by auto
    from Cons.IH[OF this Cons.prems(2)] Some show ?thesis by (simp add: select_step_def)
  qed
qed

lemma select_loop_present:
  assumes "\<forall>n\<in>set names. map_of sch n \<noteq> None"
  shows "\<exists>s. foldM (select_step sch) acc names = Inr s
           \<and> fst ` set s = fst ` set acc \<union> set names
           \<and> (\<forall>k. map_of s k = (if k \<in> set names then map_of sch k else map_of acc k))"
  using assms
proof (induction names arbitrary: acc)
  case Nil
  then show ?case by simp
next
  case (Cons x xs)
  from Cons.prems obtain cs where cs: "map_of sch x = Some cs" by auto
  then have st: "select_step sch acc x = Inr (AList.update x cs acc)"
    by (simp add: select_step_def)
  from Cons.prems have "\<forall>n\<in>set xs. map_of sch n \<noteq> None" by simp
  from Cons.IH[OF this, of "AList.update x cs acc"] obtain s where
    s: "foldM (select_step sch) (AList.update x cs acc) xs = Inr s"
    and keys: "fst ` set s = fst ` set (AList.update x cs acc) \<union> set xs"
    and look: "\<forall>k. map_of s k = (if k \<in> set xs then map_of sch k
                                    else map_of (AList.update x cs acc) k)"
    by blast
  from keys have "fst ` set s = fst ` set acc \<union> set (x # xs)"
    by (auto simp: dom_update)
  moreover from look cs have "\<forall>k. map_of s k = (if k \<in> set (x # xs) then map_of sch k else map_of acc k)"
    by (auto simp: update_conv')
  ultimately show ?case using st s by simp
qed

lemma select_by_name_Inr:
  assumes "select_by_name sch names = Inr s"
  shows "fst ` set s = set names \<and> (\<forall>n\<in>set names. map_of sch n \<noteq> None)
         \<and> (\<forall>k. map_of s k = (if k \<in> set names then map_of sch k else None))"
proof -
  have all: "\<forall>n\<in>set names. map_of sch n \<noteq> None"
  proof (rule ccontr)
    assume "\<not> (\<forall>n\<in>set names. map_of sch n \<noteq> None)"
    then obtain n where "n \<in> set names" and "map_of sch n = None" by auto
    from select_loop_missing[OF this] assms show False by (simp add: select_by_name_def)
  qed
  from select_loop_present[OF all, of "[]"] assms all show ?thesis
    by (auto simp: select_by_name_def)
qed

lemma update_loop_Inr:
  assumes step: "\<And>s k. step s k = (case map_of s k of None \<Rightarrow> Inl KeyError
                                      | Some cs \<Rightarrow> Inr (AList.update k (F k cs) s))"
    and idem: "\<And>k cs. F k (F k cs) = F k cs"
    and run: "foldM step s ks = Inr s'"
  shows "set ks \<subseteq> fst ` set s \<and> fst ` set s' = fst ` set s
         \<and> (\<forall>k. map_of s' k = map_option (changed F ks k) (map_of s k))"
  using run
proof (induction ks arbitrary: s)
  case Nil
  then show ?case by (simp add: changed_def option.map_ident)
next
  case (Cons x xs)
  from Cons.prems obtain s0 where st: "step s x = Inr s0"
    and rest0: "foldM step s0 xs = Inr s'"
    by (auto split: sum.splits)
  from st obtain cs where cs: "map_of s x = Some cs" and s0: "s0 = AList.update x (F x cs) s"
    using step[of s x] by (auto split: option.splits)
  from rest0 s0 have rest: "foldM step (AList.update x (F x cs) s) xs = Inr s'" by simp
  define s1 where "s1 = AList.update x (F x cs) s"
  from cs have xin: "x \<in> fst ` set s" by (metis map_of_eq_None_iff option.distinct(1))
  then have k1: "fst ` set s1 = fst ` set s" by (auto simp: s1_def dom_update)
  from Cons.IH[OF rest[folded s1_def]] have sub: "set xs \<subseteq> fst ` set s1"
    and keys: "fst ` set s' = fst ` set s1"
    and look: "\<forall>k. map_of s' k = map_option (changed F xs k) (map_of s1 k)"
    by blast+
  have "map_of s' k = map_option (changed F (x # xs) k) (map_of s k)" for k
  proof (cases "k = x")
    case True
    with look cs have "map_of s' k = Some (changed F xs x (F x cs))"
      by (simp add: s1_def update_conv')
    with True cs idem show ?thesis by (simp add: changed_def)
  next
    case False
    with look have "map_of s' k = map_option (changed F xs k) (map_of s k)"
      by (simp add: s1_def update_conv')
    moreover from False have "changed F (x # xs) k = changed F xs k"
      by (intro ext) (simp add: changed_def)
    ultimately show ?thesis by simp
  qed
  with sub keys k1 xin show ?case by simp
qed

lemma update_loop_total:
  assumes step: "\<And>s k. step s k = (case map_of s k of None \<Rightarrow> Inl KeyError
                                      | Some cs \<Rightarrow> Inr (AList.update k (F k cs) s))"
    and sub: "set ks \<subseteq> fst ` set s"
  shows "\<exists>s'. foldM step s ks = Inr s'"
  using sub
proof (induction ks arbitrary: s)
  case Nil
  then show ?case by simp
next
  case (Cons x xs)
  from Cons.prems obtain cs where cs: "map_of s x = Some cs"
    by (cases "map_of s x") (auto simp: map_of_eq_None_iff)
  have "fst ` set (AList.update x (F x cs) s) = fst ` set s"
    using Cons.prems by (auto simp: dom_update)
  with Cons.prems have "set xs \<subseteq> fst ` set (AList.update x (F x cs) s)" by simp
  from Cons.IH[OF this] cs step[of s x] show ?case by simp
qed

lemma retag_step: "retag mode t s k = (case map_of s k of None \<Rightarrow> Inl KeyError
     | Some cs \<Rightarrow> Inr (AList.update k ((\<lambda>k cs. with_tags mode cs t) k cs) s))"
  by (cases "map_of s k") (simp_all add: retag_def)

lemma sparse_step_eq: "sparse_step sm sad s k = (case map_of s k of None \<Rightarrow> Inl KeyError
     | Some cs \<Rightarrow> Inr (AList.update k (sparse_column sm sad k cs) s))"
  by (cases "map_of s k") (simp_all add: sparse_step_def sparse_column_def Let_def)

lemma with_tags_idem: "with_tags mode (with_tags mode cs t) t = with_tags mode cs t"
  by (cases mode) (simp_all add: with_tags_def)

lemma sparse_column_idem:
  "sparse_column sm sad k (sparse_column sm sad k cs) = sparse_column sm sad k cs"
  by (simp add: sparse_column_def split: option.splits)

lemmas retag_loop_Inr = update_loop_Inr[where step = "retag mode t" and F = "\<lambda>k cs. with_tags mode cs t" for mode t,
    OF retag_step with_tags_idem]

lemmas retag_loop_total = update_loop_total[where step = "retag mode t" and F = "\<lambda>k cs. with_tags mode cs t" for mode t,
    OF retag_step]

lemmas sparse_loop_Inr = update_loop_Inr[where step = "sparse_step sm sad" and F = "sparse_column sm sad" for sm sad,
    OF sparse_step_eq sparse_column_idem]

lemmas sparse_loop_total = update_loop_total[where step = "sparse_step sm sad" and F = "sparse_column sm sad" for sm sad,
    OF sparse_step_eq]

text \<open>What \<^verbatim>\<open>_augment_schema\<close> makes of a column \<open>k\<close> that it selects.\<close>

lemma augment_schema_Inr:
  assumes "augment_schema mode sch cats conts labels sparse_names sm sad = Inr s'"
  obtains ca co la where "cats = Some ca" and "conts = Some co" and "labels = Some la"
    and "fst ` set s' = set (co @ ca @ la)"
    and "\<forall>n\<in>set (co @ ca @ la). map_of sch n \<noteq> None"
    and "set (case sparse_names of None \<Rightarrow> [] | Some ns \<Rightarrow> ns) \<subseteq> set (co @ ca @ la)"
    and "\<And>k. k \<in> set (co @ ca @ la) \<Longrightarrow> \<exists>cs. map_of sch k = Some cs \<and> map_of s' k = Some
           (changed (sparse_column sm sad) (case sparse_names of None \<Rightarrow> [] | Some ns \<Rightarrow> ns) k
             (changed (\<lambda>k cs. with_tags mode cs CONTINUOUS) co k
               (changed (\<lambda>k cs. with_tags mode cs CATEGORICAL) ca k
                 (changed (\<lambda>k cs. with_tags mode cs TARGET) la k cs))))"
proof -
  define ns where "ns = (case sparse_names of None \<Rightarrow> [] | Some ns \<Rightarrow> ns)"
  from assms obtain ca co la where args: "cats = Some ca" "conts = Some co" "labels = Some la"
    by (auto simp: augment_schema_def split: option.splits)
  with assms obtain s0 s1 s2 s3 where
    s0: "select_by_name sch (co @ ca @ la) = Inr s0"
    and s1: "foldM (retag mode TARGET) s0 la = Inr s1"
    and s2: "foldM (retag mode CATEGORICAL) s1 ca = Inr s2"
    and s3: "foldM (retag mode CONTINUOUS) s2 co = Inr s3"
    and s4: "foldM (sparse_step sm sad) s3 ns = Inr s'"
    by (auto simp: augment_schema_def ns_def split: sum.splits)
  note a0 = select_by_name_Inr[OF s0]
  note a1 = retag_loop_Inr[OF s1]
  note a2 = retag_loop_Inr[OF s2]
  note a3 = retag_loop_Inr[OF s3]
  note a4 = sparse_loop_Inr[OF s4]
  from a0 a1 a2 a3 a4 have keys: "fst ` set s' = set (co @ ca @ la)" by simp
  from a0 have ex: "\<forall>n\<in>set (co @ ca @ la). map_of sch n \<noteq> None" by simp
  from a0 a1 a2 a3 a4 have sub: "set ns \<subseteq> set (co @ ca @ la)" by simp
  have look: "\<exists>cs. map_of sch k = Some cs \<and> map_of s' k = Some
           (changed (sparse_column sm sad) ns k
             (changed (\<lambda>k cs. with_tags mode cs CONTINUOUS) co k
               (changed (\<lambda>k cs. with_tags mode cs CATEGORICAL) ca k
                 (changed (\<lambda>k cs. with_tags mode cs TARGET) la k cs))))"
    if "k \<in> set (co @ ca @ la)" for k
  proof -
    from ex that obtain cs where cs: "map_of sch k = Some cs" by auto
    with a0 that have "map_of s0 k = Some cs" by simp
    with a1 have "map_of s1 k = Some (changed (\<lambda>k cs. with_tags mode cs TARGET) la k cs)" by simp
    with a2 have "map_of s2 k = Some (changed (\<lambda>k cs. with_tags mode cs CATEGORICAL) ca k
                                       (changed (\<lambda>k cs. with_tags mode cs TARGET) la k cs))" by simp
    with a3 a4 cs show ?thesis by simp
  qed
  from that[OF args keys ex sub[unfolded ns_def] look[unfolded ns_def]] show ?thesis by blast
qed

lemma augment_schema_total:
  assumes ex: "\<forall>n\<in>set (co @ ca @ la). map_of sch n \<noteq> None"
    and sub: "set (case sparse_names of None \<Rightarrow> [] | Some ns \<Rightarrow> ns) \<subseteq> set (co @ ca @ la)"
  shows "\<exists>s'. augment_schema mode sch (Some ca) (Some co) (Some la) sparse_names sm sad = Inr s'"
proof -
  from select_loop_present[OF ex, of "[]"] obtain s0 where
    s0: "select_by_name sch (co @ ca @ la) = Inr s0" and k0: "fst ` set s0 = set (co @ ca @ la)"
    by (auto simp: select_by_name_def)
  from k0 have "set la \<subseteq> fst ` set s0" by auto
  from retag_loop_total[OF this] obtain s1 where s1: "foldM (retag mode TARGET) s0 la = Inr s1"
    by blast
  from retag_loop_Inr[OF s1] k0 have k1: "fst ` set s1 = set (co @ ca @ la)" by simp
  then have "set ca \<subseteq> fst ` set s1" by auto
  from retag_loop_total[OF this] obtain s2 where s2: "foldM (retag mode CATEGORICAL) s1 ca = Inr s2"
    by blast
  from retag_loop_Inr[OF s2] k1 have k2: "fst ` set s2 = set (co @ ca @ la)" by simp
  then have "set co \<subseteq> fst ` set s2" by auto
  from retag_loop_total[OF this] obtain s3 where s3: "foldM (retag mode CONTINUOUS) s2 co = Inr s3"
    by blast
  from retag_loop_Inr[OF s3] k2 have k3: "fst ` set s3 = set (co @ ca @ la)" by simp
  with sub have "set (case sparse_names of None \<Rightarrow> [] | Some ns \<Rightarrow> ns) \<subseteq> fst ` set s3" by simp
  from sparse_loop_total[OF this] obtain s' where
    "foldM (sparse_step sm sad) s3 (case sparse_names of None \<Rightarrow> [] | Some ns \<Rightarrow> ns) = Inr s'"
    by blast
  with s0 s1 s2 s3 show ?thesis by (simp add: augment_schema_def)
qed

text \<open>
  A tag applied to the names \<open>ks\<close> is on the column \<open>k\<close> when \<open>k\<close> is one of them; a
  tag that the column has stays when the tagging is additive or \<open>k\<close> is not one of them.
  The loop over the sparse names leaves the tags.
\<close>

lemma changed_tags_set:
  "k \<in> set ks \<Longrightarrow> u \<in> cs_tags (changed (\<lambda>k cs. with_tags mode cs u) ks k cs)"
  by (cases mode) (simp_all add: changed_def with_tags_def)

lemma changed_tags_kept:
  "t \<in> cs_tags cs \<Longrightarrow> mode = Additive \<or> k \<notin> set ks \<Longrightarrow>
     t \<in> cs_tags (changed (\<lambda>k cs. with_tags mode cs u) ks k cs)"
  by (cases mode) (auto simp: changed_def with_tags_def)

lemma changed_sparse_tags:
  "cs_tags (changed (sparse_column sm sad) ks k cs) = cs_tags cs"
  by (simp add: changed_def sparse_column_def)

text \<open>
  Claim C6, as amended. When all the names of \<open>cats\<close>, \<open>conts\<close> and \<open>labels\<close> exist in the
  schema and, unless the tagging of the library is additive, no name is in two of the
  three lists, \<^verbatim>\<open>_augment_schema\<close> returns a schema whose columns are exactly those
  names; every column of \<open>labels\<close> carries \<open>TARGET\<close>, every column of \<open>cats\<close> carries
  \<open>CATEGORICAL\<close> and every column of \<open>conts\<close> carries \<open>CONTINUOUS\<close>. The sparse names, when
  given, are among the selected ones (none by default).
\<close>

theorem augment_schema_selects_and_tags:
  assumes ex: "\<forall>n\<in>set (co @ ca @ la). map_of sch n \<noteq> None"
    and sub: "set (case sparse_names of None \<Rightarrow> [] | Some ns \<Rightarrow> ns) \<subseteq> set (co @ ca @ la)"
    and disj: "mode = Additive
               \<or> (set ca \<inter> set co = {} \<and> set ca \<inter> set la = {} \<and> set co \<inter> set la = {})"
  shows "\<exists>s'. augment_schema mode sch (Some ca) (Some co) (Some la) sparse_names sm sad = Inr s'
     \<and> fst ` set s' = set ca \<union> set co \<union> set la
     \<and> (\<forall>k\<in>set la. \<exists>cs. map_of s' k = Some cs \<and> TARGET \<in> cs_tags cs)
     \<and> (\<forall>k\<in>set ca. \<exists>cs. map_of s' k = Some cs \<and> CATEGORICAL \<in> cs_tags cs)
     \<and> (\<forall>k\<in>set co. \<exists>cs. map_of s' k = Some cs \<and> CONTINUOUS \<in> cs_tags cs)"
proof -
  from augment_schema_total[OF ex sub] obtain s' where
    r: "augment_schema mode sch (Some ca) (Some co) (Some la) sparse_names sm sad = Inr s'" by blast
  from r obtain keys: "fst ` set s' = set (co @ ca @ la)"
    and look: "\<And>k. k \<in> set (co @ ca @ la) \<Longrightarrow> \<exists>cs. map_of sch k = Some cs \<and> map_of s' k = Some
           (changed (sparse_column sm sad) (case sparse_names of None \<Rightarrow> [] | Some ns \<Rightarrow> ns) k
             (changed (\<lambda>k cs. with_tags mode cs CONTINUOUS) co k
               (changed (\<lambda>k cs. with_tags mode cs CATEGORICAL) ca k
                 (changed (\<lambda>k cs. with_tags mode cs TARGET) la k cs))))"
    by (rule augment_schema_Inr) simp
  have t: "\<exists>cs. map_of s' k = Some cs \<and> TARGET \<in> cs_tags cs" if "k \<in> set la" for k
  proof -
    from that disj have a: "mode = Additive \<or> k \<notin> set ca" and b: "mode = Additive \<or> k \<notin> set co"
      by auto
    from that have "k \<in> set (co @ ca @ la)" by simp
    from look[OF this] obtain cs where m: "map_of s' k = Some
           (changed (sparse_column sm sad) (case sparse_names of None \<Rightarrow> [] | Some ns \<Rightarrow> ns) k
             (changed (\<lambda>k cs. with_tags mode cs CONTINUOUS) co k
               (changed (\<lambda>k cs. with_tags mode cs CATEGORICAL) ca k
                 (changed (\<lambda>k cs. with_tags mode cs TARGET) la k cs))))"
      by blast
    have "TARGET \<in> cs_tags (changed (\<lambda>k cs. with_tags mode cs TARGET) la k cs)"
      by (rule changed_tags_set[OF that])
    then have "TARGET \<in> cs_tags (changed (\<lambda>k cs. with_tags mode cs CATEGORICAL) ca k
                 (changed (\<lambda>k cs. with_tags mode cs TARGET) la k cs))"
      by (rule changed_tags_kept[OF _ a])
    then have "TARGET \<in> cs_tags (changed (\<lambda>k cs. with_tags mode cs CONTINUOUS) co k
               (changed (\<lambda>k cs. with_tags mode cs CATEGORICAL) ca k
                 (changed (\<lambda>k cs. with_tags mode cs TARGET) la k cs)))"
      by (rule changed_tags_kept[OF _ b])
    with m show ?thesis by (simp add: changed_sparse_tags)
  qed
  have c: "\<exists>cs. map_of s' k = Some cs \<and> CATEGORICAL \<in> cs_tags cs" if "k \<in> set ca" for k
  proof -
    from that disj have b: "mode = Additive \<or> k \<notin> set co" by auto
    from that have "k \<in> set (co @ ca @ la)" by simp
    from look[OF this] obtain cs where m: "map_of s' k = Some
           (changed (sparse_column sm sad) (case sparse_names of None \<Rightarrow> [] | Some ns \<Rightarrow> ns) k
             (changed (\<lambda>k cs. with_tags mode cs CONTINUOUS) co k
               (changed (\<lambda>k cs. with_tags mode cs CATEGORICAL) ca k
                 (changed (\<lambda>k cs. with_tags mode cs TARGET) la k cs))))"
      by blast
    have "CATEGORICAL \<in> cs_tags (changed (\<lambda>k cs. with_tags mode cs CATEGORICAL) ca k
                 (changed (\<lambda>k cs. with_tags mode cs TARGET) la k cs))"
      by (rule changed_tags_set[OF that])
    then have "CATEGORICAL \<in> cs_tags (changed (\<lambda>k cs. with_tags mode cs CONTINUOUS) co k
               (changed (\<lambda>k cs. with_tags mode cs CATEGORICAL) ca k
                 (changed (\<lambda>k cs. with_tags mode cs TARGET) la k cs)))"
      by (rule changed_tags_kept[OF _ b])
    with m show ?thesis by (simp add: changed_sparse_tags)
  qed
  have n: "\<exists>cs. map_of s' k = Some cs \<and> CONTINUOUS \<in> cs_tags cs" if "k \<in> set co" for k
  proof -
    from that have "k \<in> set (co @ ca @ la)" by simp
    from look[OF this] obtain cs where m: "map_of s' k = Some
           (changed (sparse_column sm sad) (case sparse_names of None \<Rightarrow> [] | Some ns \<Rightarrow> ns) k
             (changed (\<lambda>k cs. with_tags mode cs CONTINUOUS) co k
               (changed (\<lambda>k cs. with_tags mode cs CATEGORICAL) ca k
                 (changed (\<lambda>k cs. with_tags mode cs TARGET) la k cs))))"
      by blast
    have "CONTINUOUS \<in> cs_tags (changed (\<lambda>k cs. with_tags mode cs CONTINUOUS) co k
               (changed (\<lambda>k cs. with_tags mode cs CATEGORICAL) ca k
                 (changed (\<lambda>k cs. with_tags mode cs TARGET) la k cs)))"
      by (rule changed_tags_set[OF that])
    with m show ?thesis by (simp add: changed_sparse_tags)
  qed
  from keys have "fst ` set s' = set ca \<union> set co \<union> set la" by auto
  with r t c n show ?thesis by blast
qed

lemmas augment_defs = augment_schema_def select_by_name_def select_step_def retag_def
  with_tags_def sparse_step_def example_columns_def plain_column_def

theorem augment_schema_selects_and_tags_witness:
  "map_of example_columns ''a'' \<noteq> None \<and> map_of example_columns ''b'' \<noteq> None
   \<and> map_of example_columns ''c'' \<noteq> None
   \<and> set [''a''] \<inter> set [''b''] = {} \<and> set [''a''] \<inter> set [''c''] = {}
   \<and> set [''b''] \<inter> set [''c''] = {}
   \<and> (\<exists>s'. augment_schema Replacing example_columns (Some [''a'']) (Some [''b'']) (Some [''c''])
               None None False = Inr s'
        \<and> fst ` set s' = {''a'', ''b'', ''c''}
        \<and> (\<exists>cs. map_of s' ''c'' = Some cs \<and> TARGET \<in> cs_tags cs)
        \<and> (\<exists>cs. map_of s' ''a'' = Some cs \<and> CATEGORICAL \<in> cs_tags cs)
        \<and> (\<exists>cs. map_of s' ''b'' = Some cs \<and> CONTINUOUS \<in> cs_tags cs))"
proof -
  have ex: "\<forall>n\<in>set ([''b''] @ [''a''] @ [''c'']). map_of example_columns n \<noteq> None"
    by (simp add: example_columns_def)
  have sub: "set (case None of None \<Rightarrow> [] | Some ns \<Rightarrow> ns) \<subseteq> set ([''b''] @ [''a''] @ [''c''])"
    by simp
  have d: "set [''a''] \<inter> set [''b''] = {} \<and> set [''a''] \<inter> set [''c''] = {}
           \<and> set [''b''] \<inter> set [''c''] = {}"
    by simp
  then have disj: "Replacing = Additive
     \<or> (set [''a''] \<inter> set [''b''] = {} \<and> set [''a''] \<inter> set [''c''] = {}
         \<and> set [''b''] \<inter> set [''c''] = {})"
    by (rule disjI2)
  from augment_schema_selects_and_tags[where sm = None and sad = False, OF ex sub disj]
  obtain s' where "augment_schema Replacing example_columns (Some [''a'']) (Some [''b'']) (Some [''c''])
               None None False = Inr s'"
    and "fst ` set s' = set [''a''] \<union> set [''b''] \<union> set [''c'']"
    and "\<exists>cs. map_of s' ''c'' = Some cs \<and> TARGET \<in> cs_tags cs"
    and "\<exists>cs. map_of s' ''a'' = Some cs \<and> CATEGORICAL \<in> cs_tags cs"
    and "\<exists>cs. map_of s' ''b'' = Some cs \<and> CONTINUOUS \<in> cs_tags cs"
    by auto
  moreover from this(2) have "fst ` set s' = {''a'', ''b'', ''c''}" by auto
  ultimately show ?thesis using ex d by auto
qed

text \<open>
  The names of \<open>labels\<close> and \<open>cats\<close> overlap and the tagging replaces: the column \<open>a\<close> is
  tagged \<open>TARGET\<close> by the first loop and \<open>CATEGORICAL\<close> by the second, which is all that it
  carries in the schema returned. The claim as stated (every column of \<open>labels\<close> carries
  \<open>TARGET\<close>, for all lists of existing names) fails here.
\<close>

theorem augment_schema_selects_and_tags_counterexample:
  "map_of example_columns ''a'' \<noteq> None \<and> map_of example_columns ''b'' \<noteq> None
   \<and> augment_schema Replacing example_columns (Some [''a'']) (Some [''b'']) (Some [''a''])
        None None False
     = Inr [(''b'', \<lparr>cs_name = ''b'', cs_tags = {CONTINUOUS}, cs_dtype = ''int64'',
                     cs_is_list = False, cs_is_ragged = False, cs_properties = []\<rparr>),
            (''a'', \<lparr>cs_name = ''a'', cs_tags = {CATEGORICAL}, cs_dtype = ''int64'',
                     cs_is_list = False, cs_is_ragged = False, cs_properties = []\<rparr>)]
   \<and> ''a'' \<in> set [''a'']
   \<and> \<not> (\<exists>cs. map_of [(''b'', \<lparr>cs_name = ''b'', cs_tags = {CONTINUOUS}, cs_dtype = ''int64'',
                     cs_is_list = False, cs_is_ragged = False, cs_properties = []\<rparr>),
            (''a'', \<lparr>cs_name = ''a'', cs_tags = {CATEGORICAL}, cs_dtype = ''int64'',
                     cs_is_list = False, cs_is_ragged = False, cs_properties = []\<rparr>)] ''a''
               = Some cs \<and> TARGET \<in> cs_tags cs)"
  by (simp add: augment_defs)

text \<open>
  With an additive tagging the same call returns the column \<open>a\<close> with both tags.
\<close>

lemma augment_additive_overlap_example:
  "augment_schema Additive example_columns (Some [''a'']) (Some [''b'']) (Some [''a''])
        None None False
     = Inr [(''b'', \<lparr>cs_name = ''b'', cs_tags = {CONTINUOUS}, cs_dtype = ''int64'',
                     cs_is_list = False, cs_is_ragged = False, cs_properties = []\<rparr>),
            (''a'', \<lparr>cs_name = ''a'', cs_tags = {CATEGORICAL, TARGET}, cs_dtype = ''int64'',
                     cs_is_list = False, cs_is_ragged = False, cs_properties = []\<rparr>)]"
  by (simp add: augment_defs)

text \<open>
  Claim C7. Every column named in \<open>sparse_names\<close> is, in the schema returned, a list
  column whose ragged flag is the negation of \<open>sparse_as_dense\<close>; and when \<open>sparse_max\<close>
  maps the column to \<open>m\<close>, its \<open>value_count\<close> property has the maximum \<open>m\<close>.
\<close>

theorem sparse_names_marked_as_lists:
  assumes r: "augment_schema mode sch cats conts labels (Some ns) sm sad = Inr s'"
    and c: "c \<in> set ns"
  shows "\<exists>cs. map_of s' c = Some cs \<and> cs_is_list cs \<and> cs_is_ragged cs = (\<not> sad)
           \<and> (\<forall>mp m. sm = Some mp \<longrightarrow> map_of mp c = Some m \<longrightarrow>
                 map_of (cs_properties cs) ''value_count'' = Some (PDict [(''max'', PInt m)])
                 \<and> value_count_max cs = Some m)"
proof -
  from r obtain ca co la where
    sub: "set (case Some ns of None \<Rightarrow> [] | Some ns \<Rightarrow> ns) \<subseteq> set (co @ ca @ la)"
    and look: "\<And>k. k \<in> set (co @ ca @ la) \<Longrightarrow> \<exists>cs. map_of sch k = Some cs \<and> map_of s' k = Some
           (changed (sparse_column sm sad) (case Some ns of None \<Rightarrow> [] | Some ns \<Rightarrow> ns) k
             (changed (\<lambda>k cs. with_tags mode cs CONTINUOUS) co k
               (changed (\<lambda>k cs. with_tags mode cs CATEGORICAL) ca k
                 (changed (\<lambda>k cs. with_tags mode cs TARGET) la k cs))))"
    by (rule augment_schema_Inr) blast
  from sub c have "c \<in> set (co @ ca @ la)" by auto
  from look[OF this] c obtain cs0 where "map_of s' c = Some (sparse_column sm sad c cs0)"
    by (auto simp: changed_def)
  then show ?thesis
    by (auto simp: sparse_column_def value_count_max_def update_conv')
qed

lemma augment_sparse_example:
  "augment_schema Replacing example_columns (Some [''a'']) (Some [''b'']) (Some [''c''])
      (Some [''a'']) (Some [(''a'', 10)]) False
   = Inr [(''b'', \<lparr>cs_name = ''b'', cs_tags = {CONTINUOUS}, cs_dtype = ''int64'',
                   cs_is_list = False, cs_is_ragged = False, cs_properties = []\<rparr>),
          (''a'', \<lparr>cs_name = ''a'', cs_tags = {CATEGORICAL}, cs_dtype = ''int64'',
                   cs_is_list = True, cs_is_ragged = True,
                   cs_properties = [(''value_count'', PDict [(''max'', PInt 10)])]\<rparr>),
          (''c'', \<lparr>cs_name = ''c'', cs_tags = {TARGET}, cs_dtype = ''int64'',
                   cs_is_list = False, cs_is_ragged = False, cs_properties = []\<rparr>)]"
  by (simp add: augment_defs)

lemma augment_dense_example:
  "augment_schema Replacing example_columns (Some [''a'']) (Some [''b'']) (Some [''c''])
      (Some [''a'']) (Some [(''a'', 10)]) True
   = Inr [(''b'', \<lparr>cs_name = ''b'', cs_tags = {CONTINUOUS}, cs_dtype = ''int64'',
                   cs_is_list = False, cs_is_ragged = False, cs_properties = []\<rparr>),
          (''a'', \<lparr>cs_name = ''a'', cs_tags = {CATEGORICAL}, cs_dtype = ''int64'',
                   cs_is_list = True, cs_is_ragged = False,
                   cs_properties = [(''value_count'', PDict [(''max'', PInt 10)])]\<rparr>),
          (''c'', \<lparr>cs_name = ''c'', cs_tags = {TARGET}, cs_dtype = ''int64'',
                   cs_is_list = False, cs_is_ragged = False, cs_properties = []\<rparr>)]"
  by (simp add: augment_defs)

theorem sparse_names_marked_as_lists_witness:
  "augment_schema Replacing example_columns (Some [''a'']) (Some [''b'']) (Some [''c''])
      (Some [''a'']) (Some [(''a'', 10)]) False
   = Inr [(''b'', \<lparr>cs_name = ''b'', cs_tags = {CONTINUOUS}, cs_dtype = ''int64'',
                   cs_is_list = False, cs_is_ragged = False, cs_properties = []\<rparr>),
          (''a'', \<lparr>cs_name = ''a'', cs_tags = {CATEGORICAL}, cs_dtype = ''int64'',
                   cs_is_list = True, cs_is_ragged = True,
                   cs_properties = [(''value_count'', PDict [(''max'', PInt 10)])]\<rparr>),
          (''c'', \<lparr>cs_name = ''c'', cs_tags = {TARGET}, cs_dtype = ''int64'',
                   cs_is_list = False, cs_is_ragged = False, cs_properties = []\<rparr>)]
   \<and> ''a'' \<in> set [''a'']
   \<and> (\<exists>cs. map_of [(''b'', \<lparr>cs_name = ''b'', cs_tags = {CONTINUOUS}, cs_dtype = ''int64'',
                   cs_is_list = False, cs_is_ragged = False, cs_properties = []\<rparr>),
          (''a'', \<lparr>cs_name = ''a'', cs_tags = {CATEGORICAL}, cs_dtype = ''int64'',
                   cs_is_list = True, cs_is_ragged = True,
                   cs_properties = [(''value_count'', PDict [(''max'', PInt 10)])]\<rparr>),
          (''c'', \<lparr>cs_name = ''c'', cs_tags = {TARGET}, cs_dtype = ''int64'',
                   cs_is_list = False, cs_is_ragged = False, cs_properties = []\<rparr>)] ''a'' = Some cs
        \<and> cs_is_list cs \<and> cs_is_ragged cs \<and> value_count_max cs = Some 10)"
proof -
  have c: "''a'' \<in> set [''a'']" by simp
  from sparse_names_marked_as_lists[OF augment_sparse_example c]
  show ?thesis using augment_sparse_example by simp
qed

text \<open>
  Claim C8. When a name listed in \<open>cats\<close>, \<open>conts\<close> or \<open>labels\<close> is not in the schema,
  \<^verbatim>\<open>_augment_schema\<close> returns no schema: it fails with the lookup error of the
  selection, which it neither catches nor translates.
\<close>

theorem augment_schema_missing_name_fails:
  assumes "n \<in> set ca \<union> set co \<union> set la" and "map_of sch n = None"
  shows "augment_schema mode sch (Some ca) (Some co) (Some la) sparse_names sm sad = Inl KeyError"
proof -
  from assms(1) have "n \<in> set (co @ ca @ la)" by auto
  from select_loop_missing[OF this assms(2)]
  have "select_by_name sch (co @ ca @ la) = Inl KeyError"
    by (simp add: select_by_name_def)
  then show ?thesis by (simp add: augment_schema_def)
qed

theorem augment_schema_missing_name_fails_witness:
  "''z'' \<in> set [''a''] \<union> set [''b''] \<union> set [''z''] \<and> map_of example_columns ''z'' = None
   \<and> augment_schema Replacing example_columns (Some [''a'']) (Some [''b'']) (Some [''z'']) None None False
       = Inl KeyError"
proof -
  have n: "''z'' \<in> set [''a''] \<union> set [''b''] \<union> set [''z'']" by simp
  have m: "map_of example_columns ''z'' = None" by (simp add: example_columns_def)
  from augment_schema_missing_name_fails[OF n m] n m show ?thesis by blast
qed

section \<open>Determinism\<close>

text \<open>
  Every draw gives the same value from two states that deliver the same draws, and
  leaves two such states; so do the steps, the loops and the whole function.
\<close>

lemma alike_InrD:
  assumes "alike x y" and "x = Inr (a, g)"
  obtains h where "y = Inr (a, h)" and "same_draws g h"
  using assms by (auto simp: alike_def)

lemma alike_bind:
  assumes xy: "alike x y"
    and k: "\<And>a g h. same_draws g h \<Longrightarrow> alike (k a g) (k a h)"
  shows "alike (case x of Inl e \<Rightarrow> Inl e | Inr (a, g) \<Rightarrow> k a g)
               (case y of Inl e \<Rightarrow> Inl e | Inr (a, h) \<Rightarrow> k a h)"
proof (cases x)
  case (Inl e)
  with xy show ?thesis by (simp add: alike_def)
next
  case (Inr p)
  obtain a g where p: "p = (a, g)" by (cases p)
  with xy Inr obtain h where "y = Inr (a, h)" and "same_draws g h"
    by (auto simp: alike_def)
  with Inr p k show ?thesis by simp
qed

lemma random_randint_alike:
  assumes "same_draws g h"
  shows "alike (random_randint a b g) (random_randint a b h)"
proof -
  from assms have "py_tape g (py_pos g + 0) = py_tape h (py_pos h + 0)"
    unfolding same_draws_def by blast
  moreover have "py_tape g (py_pos g + 1 + k) = py_tape h (py_pos h + 1 + k)" for k
  proof -
    from assms have "py_tape g (py_pos g + (1 + k)) = py_tape h (py_pos h + (1 + k))"
      unfolding same_draws_def by blast
    then show ?thesis by (simp only: add.assoc)
  qed
  then have "same_draws (g\<lparr>py_pos := py_pos g + 1\<rparr>) (h\<lparr>py_pos := py_pos h + 1\<rparr>)"
    using assms unfolding same_draws_def by simp
  ultimately show ?thesis by (simp add: random_randint_def alike_def)
qed

lemma torch_draws_alike:
  assumes "same_draws g h"
  shows "fst (torch_draws n g) = fst (torch_draws n h)
         \<and> same_draws (snd (torch_draws n g)) (snd (torch_draws n h))"
proof -
  have "torch_tape g (torch_pos g + n + k) = torch_tape h (torch_pos h + n + k)" for k
  proof -
    from assms have "torch_tape g (torch_pos g + (n + k)) = torch_tape h (torch_pos h + (n + k))"
      unfolding same_draws_def by blast
    then show ?thesis by (simp only: add.assoc)
  qed
  moreover from assms have "torch_tape g (torch_pos g + k) = torch_tape h (torch_pos h + k)" for k
    unfolding same_draws_def by blast
  ultimately show ?thesis using assms unfolding same_draws_def torch_draws_def by simp
qed

lemma torch_randint_alike:
  assumes "same_draws g h"
  shows "alike (torch_randint lo hi sz g) (torch_randint lo hi sz h)"
  using torch_draws_alike[OF assms, of "prod_list (map nat sz)"]
  by (auto simp: torch_randint_def alike_def split: prod.splits)

lemma torch_rand_alike:
  assumes "same_draws g h"
  shows "alike (torch_rand sz g) (torch_rand sz h)"
  using torch_draws_alike[OF assms, of "prod_list (map nat sz)"]
  by (auto simp: torch_rand_def alike_def split: prod.splits)

lemma gen_row_alike:
  assumes "same_draws g h"
  shows "alike (gen_row f sl g) (gen_row f sl h)"
  using torch_randint_alike[OF assms] torch_rand_alike[OF assms]
  by (auto simp: gen_row_def alike_def[of "Inl _"] split: sum.splits option.splits)

lemma col_step_alike:
  assumes "same_draws g h"
  shows "alike (col_step i n sl f old g) (col_step i n sl f old h)"
proof -
  have "alike (case gen_row f sl g of Inl e \<Rightarrow> Inl e
               | Inr (row, g') \<Rightarrow> (case accumulate f i n old row of Inl e \<Rightarrow> Inl e | Inr c \<Rightarrow> Inr (c, g')))
              (case gen_row f sl h of Inl e \<Rightarrow> Inl e
               | Inr (row, g') \<Rightarrow> (case accumulate f i n old row of Inl e \<Rightarrow> Inl e | Inr c \<Rightarrow> Inr (c, g')))"
    by (rule alike_bind[OF gen_row_alike[OF assms]]) (auto simp: alike_def split: sum.splits)
  then show ?thesis by (simp add: col_step_def)
qed

lemma feature_step_alike:
  assumes "same_draws g h"
  shows "alike (feature_step i n sl (d, g) f) (feature_step i n sl (d, h) f)"
proof -
  have "alike (case col_step i n sl f (map_of d (fname f)) g of Inl e \<Rightarrow> Inl e
               | Inr (c, g') \<Rightarrow> Inr (AList.update (fname f) c d, g'))
              (case col_step i n sl f (map_of d (fname f)) h of Inl e \<Rightarrow> Inl e
               | Inr (c, g') \<Rightarrow> Inr (AList.update (fname f) c d, g'))"
    by (rule alike_bind[OF col_step_alike[OF assms]]) (simp add: alike_def)
  then show ?thesis unfolding feature_step_def fst_conv snd_conv .
qed

lemma foldM_alike:
  assumes step: "\<And>d g h x. same_draws g h \<Longrightarrow> alike (f (d, g) x) (f (d, h) x)"
    and gh: "same_draws g h"
  shows "alike (foldM f (d, g) xs) (foldM f (d, h) xs)"
  using gh
proof (induction xs arbitrary: d g h)
  case Nil
  then show ?case by (simp add: alike_def)
next
  case (Cons x xs)
  have "alike (case f (d, g) x of Inl e \<Rightarrow> Inl e | Inr (d', g') \<Rightarrow> foldM f (d', g') xs)
              (case f (d, h) x of Inl e \<Rightarrow> Inl e | Inr (d', h') \<Rightarrow> foldM f (d', h') xs)"
    by (rule alike_bind[OF step[OF Cons.prems]]) (rule Cons.IH)
  moreover have "foldM f (d, g) (x # xs)
      = (case f (d, g) x of Inl e \<Rightarrow> Inl e | Inr (d', g') \<Rightarrow> foldM f (d', g') xs)" for g
    by (simp split: sum.splits)
  ultimately show ?case by simp
qed

lemma draw_session_length_alike:
  assumes "same_draws g h"
  shows "alike (draw_session_length mx mn g) (draw_session_length mx mn h)"
proof (cases "mx = None \<or> mx = Some 0")
  case True
  with assms show ?thesis by (auto simp: draw_session_length_def alike_def)
next
  case False
  then obtain m where m: "mx = Some m" "m \<noteq> 0" by auto
  have "alike (case random_randint mn m g of Inl e \<Rightarrow> Inl e | Inr (l, g') \<Rightarrow> Inr (Some l, g'))
              (case random_randint mn m h of Inl e \<Rightarrow> Inl e | Inr (l, g') \<Rightarrow> Inr (Some l, g'))"
    by (rule alike_bind[OF random_randint_alike[OF assms]]) (simp add: alike_def)
  with m show ?thesis by (simp add: draw_session_length_def)
qed

lemma row_step_alike:
  assumes "same_draws g h"
  shows "alike (row_step sch n mx mn (d, g) i) (row_step sch n mx mn (d, h) i)"
proof -
  have "alike (case draw_session_length mx mn g of Inl e \<Rightarrow> Inl e
               | Inr (sl, g') \<Rightarrow> foldM (feature_step i n sl) (d, g') sch)
              (case draw_session_length mx mn h of Inl e \<Rightarrow> Inl e
               | Inr (sl, g') \<Rightarrow> foldM (feature_step i n sl) (d, g') sch)"
    by (rule alike_bind[OF draw_session_length_alike[OF assms]])
       (rule foldM_alike[where f = "feature_step i n _", OF feature_step_alike])
  then show ?thesis unfolding row_step_def fst_conv snd_conv .
qed

lemma generate_alike:
  assumes "same_draws g h"
  shows "alike (generate g sch n mx mn) (generate h sch n mx mn)"
  unfolding generate_def
  by (rule foldM_alike[where f = "row_step sch n mx mn", OF row_step_alike assms])

lemma random_data_alike:
  assumes "same_draws g h"
  shows "alike (random_data_from_schema g sch n mx mn) (random_data_from_schema h sch n mx mn)"
proof -
  have "alike (case generate g sch n mx mn of Inl e \<Rightarrow> Inl e
               | Inr (dat, g') \<Rightarrow> (case foldM (output_step mx) [] dat of Inl e \<Rightarrow> Inl e
                                    | Inr outputs \<Rightarrow> Inr (outputs, g')))
              (case generate h sch n mx mn of Inl e \<Rightarrow> Inl e
               | Inr (dat, g') \<Rightarrow> (case foldM (output_step mx) [] dat of Inl e \<Rightarrow> Inl e
                                    | Inr outputs \<Rightarrow> Inr (outputs, g')))"
    by (rule alike_bind[OF generate_alike[OF assms]]) (auto simp: alike_def split: sum.splits)
  then show ?thesis by (simp add: random_data_from_schema_def)
qed

text \<open>
  Claim C9. Two invocations with the same schema, number of rows and session bounds,
  from states of the random sources that deliver the same draws (the same state, or the
  states after seeding twice with one seed), produce the same output mapping: the same
  keys with equal tensors, or the same error. The device does not enter the values.
\<close>

theorem random_data_deterministic:
  assumes "same_draws g h"
  shows "map_sum id fst (random_data_from_schema g sch n mx mn)
           = map_sum id fst (random_data_from_schema h sch n mx mn)"
  using random_data_alike[OF assms, of sch n mx mn]
  by (auto simp: alike_def split: sum.splits)

theorem random_data_deterministic_witness:
  "same_draws example_rng shifted_rng
   \<and> map_sum id fst (random_data_from_schema example_rng [item_list, price] 2 None 5)
       = map_sum id fst (random_data_from_schema shifted_rng [item_list, price] 2 None 5)
   \<and> map_sum id fst (random_data_from_schema shifted_rng [item_list, price] 2 None 5)
       = Inr [(''item_id-list'', Dense \<lparr>tshape = [2, 3], tdata = [4, 2, 9, 5, 3, 1]\<rparr>),
              (''price'', Dense \<lparr>tshape = [2], tdata = [3 / 2097152, 13 / 4194304]\<rparr>)]"
proof -
  have s: "same_draws example_rng shifted_rng"
    by (simp add: same_draws_def example_rng_def shifted_rng_def)
  from random_data_deterministic[OF s, of "[item_list, price]" 2 None 5]
  show ?thesis using s random_data_example by simp
qed

end
